theory Spec2Isabelle
  imports Main "HOL-Library.Word"
begin

section \<open>Byte strings\<close>

text \<open>
  Keys and values are Go byte slices. A key is only ever measured (\<open>len\<close>) and compared
  (\<open>bytes.Compare\<close>), so a nil key and an empty key are the same list here. Values keep
  the difference between nil and empty (\<open>None\<close> and \<open>Some []\<close>), because a nil
  \<open>data\<close> marks a delete record in the change log.
\<close>

type_synonym byte = "8 word"

text \<open>\<open>bytes.Compare\<close>: lexicographic on unsigned bytes, a proper prefix is smaller.\<close>

fun bytes_Compare :: "byte list \<Rightarrow> byte list \<Rightarrow> int" where
  "bytes_Compare [] [] = 0"
| "bytes_Compare [] (y # ys) = -1"
| "bytes_Compare (x # xs) [] = 1"
| "bytes_Compare (x # xs) (y # ys) =
     (if x < y then -1 else if y < x then 1 else bytes_Compare xs ys)"

section \<open>Protocol values\<close>

text \<open>
  Requests and responses of the memcached binary protocol, as package gomemcached has
  them. Only the fields the partition code reads or writes are kept.
\<close>

type_synonym CommandCode = "8 word"
type_synonym Status = "16 word"

definition GET :: CommandCode where "GET = 0x00"
definition SET :: CommandCode where "SET = 0x01"
definition DELETE :: CommandCode where "DELETE = 0x04"
definition GETQ :: CommandCode where "GETQ = 0x09"
definition GETK :: CommandCode where "GETK = 0x0c"
definition GETKQ :: CommandCode where "GETKQ = 0x0d"
definition SETQ :: CommandCode where "SETQ = 0x11"
definition DELETEQ :: CommandCode where "DELETEQ = 0x14"
definition RGET :: CommandCode where "RGET = 0x30"
definition CHANGES_SINCE :: CommandCode where "CHANGES_SINCE = 0x60"
definition GET_VBUCKET_CONFIG :: CommandCode where "GET_VBUCKET_CONFIG = 0x61"
definition SET_VBUCKET_CONFIG :: CommandCode where "SET_VBUCKET_CONFIG = 0x62"
definition SPLIT_RANGE :: CommandCode where "SPLIT_RANGE = 0x63"

text \<open>
  \<open>CommandCode.IsQuiet\<close>: the quiet opcodes of the binary protocol (GETQ, GETKQ, SETQ,
  ADDQ, REPLACEQ, DELETEQ, INCREMENTQ, DECREMENTQ, QUITQ, FLUSHQ, APPENDQ, PREPENDQ and
  the quiet range opcodes).
\<close>

definition IsQuiet :: "CommandCode \<Rightarrow> bool" where
  "IsQuiet opc = (opc \<in> set [0x09, 0x0d, 0x11, 0x12, 0x13, 0x14, 0x15, 0x16, 0x17, 0x18,
                              0x19, 0x1a, 0x32, 0x34, 0x36, 0x38, 0x3a, 0x3c])"

definition SUCCESS :: Status where "SUCCESS = 0x00"
definition KEY_ENOENT :: Status where "KEY_ENOENT = 0x01"
definition EINVAL :: Status where "EINVAL = 0x04"
definition UNKNOWN_COMMAND :: Status where "UNKNOWN_COMMAND = 0x81"
definition NOT_MY_RANGE :: Status where "NOT_MY_RANGE = 0x60"

record MCRequest =
  Opcode :: CommandCode
  Cas :: "64 word"
  Key :: "byte list"
  Body :: "byte list option"

record MCResponse =
  Opcode :: CommandCode
  Status :: Status
  Cas :: "64 word"
  Extras :: "byte list"
  Key :: "byte list"
  Body :: "byte list option"
  Fatal :: bool

text \<open>The Go composite literal \<open>&gomemcached.MCResponse{}\<close>: every field at its zero value.\<close>

definition MCResponse_zero :: MCResponse where
  "MCResponse_zero =
     \<lparr>MCResponse.Opcode = 0, Status = SUCCESS, MCResponse.Cas = 0, Extras = [],
      MCResponse.Key = [], MCResponse.Body = None, Fatal = False\<rparr>"

text \<open>
  The \<open>io.Writer\<close> of a request, seen through \<open>MCResponse.Transmit\<close>: it says for a
  packet whether writing it succeeds. A request made from inside the server has no
  writer (\<open>w == nil\<close>).
\<close>

type_synonym writer = "MCResponse \<Rightarrow> bool"

record vbreq =
  w :: "writer option"
  req :: MCRequest

section \<open>Items and the two ordered trees\<close>

record item =
  key :: "byte list"
  exp :: "32 word"
  flag :: "32 word"
  cas :: "64 word"
  data :: "byte list option"

definition item_zero :: item where
  "item_zero = \<lparr>item.key = [], exp = 0, flag = 0, item.cas = 0, data = None\<rparr>"

definition KeyLess :: "item \<Rightarrow> item \<Rightarrow> int" where
  "KeyLess p q = bytes_Compare (item.key p) (item.key q)"

definition CASLess :: "item \<Rightarrow> item \<Rightarrow> int" where
  "CASLess p q =
     (if item.cas p < item.cas q then -1
      else if item.cas p = item.cas q then 0
      else 1)"

text \<open>
  Package gtreap is a library outside the repository: a persistent treap over a
  comparison function. A treap value is never changed in place; \<open>Upsert\<close> and \<open>Delete\<close>
  return a new treap and leave the receiver as it was, which is why the partition code
  writes \<open>v.items = v.items.Upsert(...)\<close>. The random priority given to \<open>Upsert\<close> shapes
  the tree only, so a treap is modelled by its comparison function and its items in
  ascending order.
\<close>

record Treap =
  compare :: "item \<Rightarrow> item \<Rightarrow> int"
  contents :: "item list"

definition NewTreap :: "(item \<Rightarrow> item \<Rightarrow> int) \<Rightarrow> Treap" where
  "NewTreap c = \<lparr>compare = c, contents = []\<rparr>"

definition Get :: "Treap \<Rightarrow> item \<Rightarrow> item option" where
  "Get t target = find (\<lambda>x. compare t target x = 0) (contents t)"

fun upsert_list :: "(item \<Rightarrow> item \<Rightarrow> int) \<Rightarrow> item \<Rightarrow> item list \<Rightarrow> item list" where
  "upsert_list c x [] = [x]"
| "upsert_list c x (y # ys) =
     (if c x y < 0 then x # y # ys
      else if c x y = 0 then x # ys
      else y # upsert_list c x ys)"

definition Upsert :: "Treap \<Rightarrow> item \<Rightarrow> Treap" where
  "Upsert t x = t\<lparr>contents := upsert_list (compare t) x (contents t)\<rparr>"

definition Delete :: "Treap \<Rightarrow> item \<Rightarrow> Treap" where
  "Delete t target = t\<lparr>contents := filter (\<lambda>x. compare t target x \<noteq> 0) (contents t)\<rparr>"

definition Min_treap :: "Treap \<Rightarrow> item option" where
  "Min_treap t = (case contents t of [] \<Rightarrow> None | x # xs \<Rightarrow> Some x)"

text \<open>
  A visitor is a Go closure: it reads an item, may change the variables it has captured
  (the state \<open>'s\<close>) and answers whether the visit goes on.
\<close>

fun visit :: "('s \<Rightarrow> item \<Rightarrow> bool \<times> 's) \<Rightarrow> item list \<Rightarrow> 's \<Rightarrow> 's" where
  "visit visitor [] s = s"
| "visit visitor (x # xs) s =
     (case visitor s x of
        (True, s') \<Rightarrow> visit visitor xs s'
      | (False, s') \<Rightarrow> s')"

text \<open>
  \<open>VisitAscend(pivot, visitor)\<close> visits the items that are not below the pivot, in
  ascending order. The pivot is nil only where it comes from \<open>Min()\<close> of an empty treap,
  and then there is nothing to visit.
\<close>

definition VisitAscend :: "Treap \<Rightarrow> item option \<Rightarrow> ('s \<Rightarrow> item \<Rightarrow> bool \<times> 's) \<Rightarrow> 's \<Rightarrow> 's" where
  "VisitAscend t pivot visitor s =
     (case pivot of
        None \<Rightarrow> s
      | Some p \<Rightarrow> visit visitor (filter (\<lambda>x. compare t p x \<le> 0) (contents t)) s)"

section \<open>The partition\<close>

datatype VBState = VBActive | VBReplica | VBPending | VBDead

record VBConfig =
  MinKeyInclusive :: "byte list"
  MaxKeyExclusive :: "byte list"

text \<open>The counters of \<open>Stats\<close> that the handlers below touch.\<close>

record Stats =
  Gets :: "64 word"
  GetMisses :: "64 word"
  Sets :: "64 word"
  Deletes :: "64 word"
  Creates :: "64 word"
  Updates :: "64 word"
  Items :: "64 word"
  RGets :: "64 word"
  RGetResults :: "64 word"
  ValueBytesIncoming :: "64 word"
  ValueBytesOutgoing :: "64 word"
  ErrNotMyRange :: "64 word"

definition Stats_zero :: Stats where
  "Stats_zero =
     \<lparr>Gets = 0, GetMisses = 0, Sets = 0, Deletes = 0, Creates = 0, Updates = 0, Items = 0,
      RGets = 0, RGetResults = 0, ValueBytesIncoming = 0, ValueBytesOutgoing = 0,
      ErrNotMyRange = 0\<rparr>"

record vbucket =
  items :: Treap
  changes :: Treap
  cas :: "64 word"
  vbid :: "16 word"
  state :: VBState
  config :: "VBConfig option"
  stats :: Stats
  suspended :: bool

text \<open>Message sent on object change.\<close>

record mutation =
  vb :: "16 word"
  mkey :: "byte list"
  mcas :: "64 word"
  deleted :: bool

definition newVBucket :: "16 word \<Rightarrow> vbucket" where
  "newVBucket vbid' =
     \<lparr>items = NewTreap KeyLess, changes = NewTreap CASLess, vbucket.cas = 0, vbid = vbid',
      state = VBDead, config = None, stats = Stats_zero, suspended = False\<rparr>"

text \<open>Go's \<open>len\<close> of a possibly nil slice.\<close>

definition len :: "byte list option \<Rightarrow> nat" where
  "len b = (case b of None \<Rightarrow> 0 | Some xs \<Rightarrow> length xs)"

definition checkRange :: "vbucket \<Rightarrow> MCRequest \<Rightarrow> MCResponse option \<times> vbucket" where
  "checkRange v r =
     (case config v of
        None \<Rightarrow> (None, v)
      | Some c \<Rightarrow>
          if length (MinKeyInclusive c) > 0 \<and>
             bytes_Compare (MCRequest.Key r) (MinKeyInclusive c) < 0
          then (Some (MCResponse_zero\<lparr>Status := NOT_MY_RANGE\<rparr>),
                v\<lparr>stats := (stats v)\<lparr>ErrNotMyRange := ErrNotMyRange (stats v) + 1\<rparr>\<rparr>)
          else if length (MaxKeyExclusive c) > 0 \<and>
             bytes_Compare (MCRequest.Key r) (MaxKeyExclusive c) \<ge> 0
          then (Some (MCResponse_zero\<lparr>Status := NOT_MY_RANGE\<rparr>),
                v\<lparr>stats := (stats v)\<lparr>ErrNotMyRange := ErrNotMyRange (stats v) + 1\<rparr>\<rparr>)
          else (None, v))"

text \<open>
  A handler returns the response (\<open>None\<close> is Go's nil: nothing is sent), the mutation to
  broadcast if there is one, and the partition as the handler leaves it.
\<close>

type_synonym handled = "MCResponse option \<times> mutation option \<times> vbucket"

definition vbSet :: "vbucket \<Rightarrow> vbreq \<Rightarrow> handled" where
  "vbSet v0 vbr =
     (let v1 = v0\<lparr>stats := (stats v0)\<lparr>Sets := Sets (stats v0) + 1\<rparr>\<rparr>;
          r = req vbr
      in case checkRange v1 r of
           (Some rangeErr, v2) \<Rightarrow> (Some rangeErr, None, v2)
         | (None, v2) \<Rightarrow>
             (let old = Get (items v2) (item_zero\<lparr>item.key := MCRequest.Key r\<rparr>);
                  oldcas = (case old of None \<Rightarrow> 0 | Some i \<Rightarrow> item.cas i)
              in if MCRequest.Cas r \<noteq> 0 \<and> oldcas \<noteq> MCRequest.Cas r
                 then (Some (MCResponse_zero\<lparr>Status := EINVAL\<rparr>), None, v2)
                 else
                   (let itemCas = vbucket.cas v2;
                        v3 = v2\<lparr>vbucket.cas := vbucket.cas v2 + 1\<rparr>;
                        itemNew = \<lparr>item.key = MCRequest.Key r, exp = 0, flag = 0,
                                   item.cas = itemCas, data = MCRequest.Body r\<rparr>;
                        v4 = v3\<lparr>stats := (stats v3)\<lparr>ValueBytesIncoming :=
                                ValueBytesIncoming (stats v3) + of_nat (len (MCRequest.Body r))\<rparr>\<rparr>;
                        v5 = v4\<lparr>items := Upsert (items v4) itemNew\<rparr>;
                        v6 = v5\<lparr>changes := Upsert (changes v5) itemNew\<rparr>;
                        v7 = (case old of
                                Some old' \<Rightarrow>
                                  \<comment> \<open>\<open>v.changes.Delete(old)\<close>: the treap it returns is dropped\<close>
                                  (let _ = Delete (changes v6) old'
                                   in v6\<lparr>stats := (stats v6)\<lparr>Updates := Updates (stats v6) + 1\<rparr>\<rparr>)
                              | None \<Rightarrow>
                                  v6\<lparr>stats := (stats v6)\<lparr>Creates := Creates (stats v6) + 1,
                                                           Items := Items (stats v6) + 1\<rparr>\<rparr>);
                        toBroadcast = \<lparr>vb = vbid v7, mkey = MCRequest.Key r, mcas = itemCas,
                                       deleted = False\<rparr>
                    in if IsQuiet (MCRequest.Opcode r)
                       then (None, Some toBroadcast, v7)
                       else (Some (MCResponse_zero\<lparr>MCResponse.Cas := itemCas\<rparr>),
                             Some toBroadcast, v7))))"

definition vbGet :: "vbucket \<Rightarrow> vbreq \<Rightarrow> handled" where
  "vbGet v0 vbr =
     (let v1 = (if w vbr \<noteq> None
                then v0\<lparr>stats := (stats v0)\<lparr>Gets := Gets (stats v0) + 1\<rparr>\<rparr> else v0);
          r = req vbr
      in case checkRange v1 r of
           (Some rangeErr, v2) \<Rightarrow> (Some rangeErr, None, v2)
         | (None, v2) \<Rightarrow>
             (case Get (items v2) (item_zero\<lparr>item.key := MCRequest.Key r\<rparr>) of
                None \<Rightarrow>
                  (let v3 = (if w vbr \<noteq> None
                             then v2\<lparr>stats := (stats v2)\<lparr>GetMisses := GetMisses (stats v2) + 1\<rparr>\<rparr>
                             else v2)
                   in if IsQuiet (MCRequest.Opcode r) then (None, None, v3)
                      else (Some (MCResponse_zero\<lparr>Status := KEY_ENOENT\<rparr>), None, v3))
              | Some i \<Rightarrow>
                  (let res = MCResponse_zero\<lparr>MCResponse.Cas := item.cas i,
                               Extras := [0, 0, 0, 0], MCResponse.Body := data i\<rparr>;
                       v3 = (if w vbr \<noteq> None
                             then v2\<lparr>stats := (stats v2)\<lparr>ValueBytesOutgoing :=
                                    ValueBytesOutgoing (stats v2) + of_nat (len (data i))\<rparr>\<rparr>
                             else v2);
                       wantsKey = (MCRequest.Opcode r = GETK \<or> MCRequest.Opcode r = GETKQ)
                   in (Some (if wantsKey then res\<lparr>MCResponse.Key := MCRequest.Key r\<rparr> else res),
                       None, v3))))"

definition vbDelete :: "vbucket \<Rightarrow> vbreq \<Rightarrow> handled" where
  "vbDelete v0 vbr =
     (let v1 = v0\<lparr>stats := (stats v0)\<lparr>Deletes := Deletes (stats v0) + 1\<rparr>\<rparr>;
          r = req vbr
      in case checkRange v1 r of
           (Some rangeErr, v2) \<Rightarrow> (Some rangeErr, None, v2)
         | (None, v2) \<Rightarrow>
             (let t = item_zero\<lparr>item.key := MCRequest.Key r\<rparr>
              in case Get (items v2) t of
                   None \<Rightarrow>
                     if IsQuiet (MCRequest.Opcode r) then (None, None, v2)
                     else (Some (MCResponse_zero\<lparr>Status := KEY_ENOENT\<rparr>), None, v2)
                 | Some i \<Rightarrow>
                     (let v3 = v2\<lparr>stats := (stats v2)\<lparr>Items := Items (stats v2) - 1\<rparr>\<rparr>
                      in if MCRequest.Cas r \<noteq> 0 \<and> MCRequest.Cas r \<noteq> item.cas i
                         then (Some (MCResponse_zero\<lparr>Status := EINVAL\<rparr>), None, v3)
                         else
                           (let cas' = vbucket.cas v3;
                                v4 = v3\<lparr>vbucket.cas := vbucket.cas v3 + 1\<rparr>;
                                v5 = v4\<lparr>items := Delete (items v4) t\<rparr>;
                                v6 = v5\<lparr>changes := Upsert (changes v5)
                                        \<lparr>item.key = MCRequest.Key r, exp = 0, flag = 0,
                                         item.cas = cas', data = None\<rparr>\<rparr>;
                                toBroadcast = \<lparr>vb = vbid v6, mkey = MCRequest.Key r,
                                               mcas = cas', deleted = True\<rparr>
                            in (Some MCResponse_zero, Some toBroadcast, v6)))))"

text \<open>
  \<open>vbSetConfig\<close> decodes the body with \<open>json.Unmarshal\<close>; the decoder is a parameter
  (\<open>None\<close> is a decoding error).
\<close>

definition vbSetConfig :: "(byte list \<Rightarrow> VBConfig option) \<Rightarrow> vbucket \<Rightarrow> vbreq \<Rightarrow> handled" where
  "vbSetConfig unmarshal v vbr =
     (case MCRequest.Body (req vbr) of
        Some body \<Rightarrow>
          (case unmarshal body of
             Some config' \<Rightarrow> (Some MCResponse_zero, None, v\<lparr>config := Some config'\<rparr>)
           | None \<Rightarrow> (Some (MCResponse_zero\<lparr>Status := EINVAL\<rparr>), None, v))
      | None \<Rightarrow> (Some (MCResponse_zero\<lparr>Status := EINVAL\<rparr>), None, v))"

section \<open>Streaming handlers\<close>

text \<open>
  A streaming handler writes packets to the request's writer and ends with one
  response. Its model returns the packets written, in order, and that response.
  With no writer (\<open>w == nil\<close>) the first packet to transmit dereferences nil and the process
  panics: the model returns \<open>None\<close> then.
\<close>

text \<open>
  Modelled from the spec: \<open>transmitPackets\<close> is declared in a file of the repository
  that is not among the sources. The spec says of it that streaming operations detect
  transport errors via a side channel and abort visitation early, and that a transport
  error flips the response to \<open>{fatal: true}\<close> and terminates the stream. So sending a
  packet on the channel writes it to the writer, and a failed write shows on the error
  channel at once. The state is the packets written so far and whether an error has shown.
\<close>

definition transmitPackets ::
  "writer \<Rightarrow> MCResponse list \<times> bool \<Rightarrow> MCResponse \<Rightarrow> MCResponse list \<times> bool" where
  "transmitPackets wr s pkt =
     (case s of (sent, err) \<Rightarrow> if wr pkt then (sent @ [pkt], err) else (sent, True))"

text \<open>The visitor of \<open>vbChangesSince\<close>: it stops the visit when an error has shown.\<close>

definition changesSince_visitor ::
  "MCRequest \<Rightarrow> writer \<Rightarrow> MCResponse list \<times> bool \<Rightarrow> item \<Rightarrow> bool \<times> MCResponse list \<times> bool" where
  "changesSince_visitor r wr s i =
     (if item.cas i > MCRequest.Cas r
      then (let pkt = MCResponse_zero\<lparr>MCResponse.Opcode := MCRequest.Opcode r,
                        MCResponse.Key := item.key i, MCResponse.Cas := item.cas i\<rparr>
            in case transmitPackets wr s pkt of
                 (sent, err) \<Rightarrow> if err then (False, sent, err) else (True, sent, err))
      else (True, s))"

definition vbChangesSince :: "vbucket \<Rightarrow> vbreq \<Rightarrow> (MCResponse list \<times> MCResponse) option" where
  "vbChangesSince v vbr =
     (let r = req vbr;
          res = MCResponse_zero\<lparr>MCResponse.Opcode := MCRequest.Opcode r,
                  MCResponse.Cas := MCRequest.Cas r\<rparr>;
          pivot = item_zero\<lparr>item.cas := MCRequest.Cas r\<rparr>
      in case w vbr of
           Some wr \<Rightarrow>
             (case VisitAscend (changes v) (Some pivot) (changesSince_visitor r wr) ([], False) of
                (sent, err) \<Rightarrow>
                  Some (sent, if err then MCResponse_zero\<lparr>Fatal := True\<rparr> else res))
         | None \<Rightarrow>
             (case VisitAscend (changes v) (Some pivot) (changesSince_visitor r (\<lambda>pkt. False))
                     ([], False) of
                (sent, err) \<Rightarrow> if err then None else Some ([], res)))"

text \<open>
  \<open>vbRGet\<close> hands the visit to a goroutine of its own and answers later; the model is
  the visit on the items tree as it is when the request arrives, followed by the update
  of the counters under \<open>Apply\<close> and the final response. The state of the visitor is the
  packets written, the response \<open>res\<close>, \<open>visitRGetResults\<close> and \<open>visitValueBytesOutgoing\<close>.
\<close>

definition rget_visitor ::
  "MCRequest \<Rightarrow> writer \<Rightarrow> MCResponse list \<times> MCResponse \<times> 64 word \<times> 64 word \<Rightarrow> item
     \<Rightarrow> bool \<times> MCResponse list \<times> MCResponse \<times> 64 word \<times> 64 word" where
  "rget_visitor r wr s i =
     (case s of (sent, res, visitRGetResults, visitValueBytesOutgoing) \<Rightarrow>
        if bytes_Compare (item.key i) (MCRequest.Key r) \<ge> 0
        then (let pkt = MCResponse_zero\<lparr>MCResponse.Opcode := MCRequest.Opcode r,
                          MCResponse.Key := item.key i, MCResponse.Cas := item.cas i,
                          MCResponse.Body := data i\<rparr>
              in if wr pkt
                 then (True, sent @ [pkt], res, visitRGetResults + 1,
                       visitValueBytesOutgoing + of_nat (len (data i)))
                 else (False, sent, MCResponse_zero\<lparr>Fatal := True\<rparr>, visitRGetResults,
                       visitValueBytesOutgoing))
        else (True, sent, res, visitRGetResults, visitValueBytesOutgoing))"

definition vbRGet :: "vbucket \<Rightarrow> vbreq \<Rightarrow> (MCResponse list \<times> MCResponse \<times> vbucket) option" where
  "vbRGet v0 vbr =
     (let v1 = v0\<lparr>stats := (stats v0)\<lparr>RGets := RGets (stats v0) + 1\<rparr>\<rparr>;
          r = req vbr;
          res0 = MCResponse_zero\<lparr>MCResponse.Opcode := MCRequest.Opcode r,
                   MCResponse.Cas := MCRequest.Cas r\<rparr>;
          pivot = item_zero\<lparr>item.key := MCRequest.Key r\<rparr>;
          wr = (case w vbr of Some wr' \<Rightarrow> wr' | None \<Rightarrow> (\<lambda>pkt. False))
      in case VisitAscend (items v1) (Some pivot) (rget_visitor r wr) ([], res0, 0, 0) of
           (sent, res, visitRGetResults, visitValueBytesOutgoing) \<Rightarrow>
             if w vbr = None \<and> Fatal res then None
             else Some (sent, res,
                    v1\<lparr>stats := (stats v1)\<lparr>
                         RGetResults := RGetResults (stats v1) + visitRGetResults,
                         ValueBytesOutgoing :=
                           ValueBytesOutgoing (stats v1) + visitValueBytesOutgoing\<rparr>\<rparr>))"

section \<open>Splitting a range\<close>

record VBSplitRangePart =
  VBucketId :: int
  MinKeyInclusive :: "byte list"
  MaxKeyExclusive :: "byte list"

record VBSplitRange =
  Splits :: "VBSplitRangePart list"

text \<open>The partitions of the parent bucket, by partition id.\<close>

type_synonym vbuckets = "16 word \<Rightarrow> vbucket option"

text \<open>
  Modelled from the spec: \<open>CreateVBucket\<close> and \<open>getVBucket\<close> are methods of the bucket,
  declared in a file of the repository that is not among the sources. The spec says of a
  split that it creates the destination if absent. So \<open>CreateVBucket\<close> registers a new
  partition and returns it where the id is free, and returns nil where it is taken;
  \<open>getVBucket\<close> returns the partition registered under the id.
\<close>

definition CreateVBucket :: "vbuckets \<Rightarrow> 16 word \<Rightarrow> vbucket option \<times> vbuckets" where
  "CreateVBucket b vbid' =
     (case b vbid' of
        None \<Rightarrow> (Some (newVBucket vbid'), b(vbid' \<mapsto> newVBucket vbid'))
      | Some vb' \<Rightarrow> (None, b))"

definition getVBucket :: "vbuckets \<Rightarrow> 16 word \<Rightarrow> vbucket option" where
  "getVBucket b vbid' = b vbid'"

text \<open>
  The visitor of \<open>treeRangeCopy\<close>; its state is the variable \<open>dst\<close> it has captured. It
  calls \<open>dst.Upsert(x, rand.Int())\<close> and drops the treap that \<open>Upsert\<close> returns, so \<open>dst\<close>
  stays what it was.
\<close>

definition treeRangeCopy_visitor :: "byte list \<Rightarrow> byte list \<Rightarrow> Treap \<Rightarrow> item \<Rightarrow> bool \<times> Treap" where
  "treeRangeCopy_visitor minKeyInclusive maxKeyExclusive dst i =
     (if length minKeyInclusive > 0 \<and> bytes_Compare (item.key i) minKeyInclusive < 0
      then (True, dst)
      else if length maxKeyExclusive > 0 \<and> bytes_Compare (item.key i) maxKeyExclusive \<ge> 0
      then (True, dst)
      else (let _ = Upsert dst i in (True, dst)))"

definition treeRangeCopy :: "Treap \<Rightarrow> Treap \<Rightarrow> item option \<Rightarrow> byte list \<Rightarrow> byte list \<Rightarrow> Treap" where
  "treeRangeCopy src dst minItem minKeyInclusive maxKeyExclusive =
     VisitAscend src minItem (treeRangeCopy_visitor minKeyInclusive maxKeyExclusive) dst"

definition rangeCopyTo :: "vbucket \<Rightarrow> vbucket \<Rightarrow> byte list \<Rightarrow> byte list \<Rightarrow> vbucket" where
  "rangeCopyTo v dst minKeyInclusive maxKeyExclusive =
     dst\<lparr>items := treeRangeCopy (items v) (NewTreap KeyLess) (Min_treap (items v))
                     minKeyInclusive maxKeyExclusive,
         changes := treeRangeCopy (changes v) (NewTreap CASLess) (Min_treap (changes v))
                     minKeyInclusive maxKeyExclusive,
         vbucket.cas := vbucket.cas v,
         state := state v,
         config := Some \<lparr>VBConfig.MinKeyInclusive = minKeyInclusive,
                          VBConfig.MaxKeyExclusive = maxKeyExclusive\<rparr>\<rparr>"

text \<open>
  \<open>transferSplits\<close> is the recursive closure of \<open>splitRangeActual\<close>, run on the splits that
  are left. Each level enters the destination's actor with \<open>Apply\<close> and stays inside it
  while the deeper levels run. \<open>Apply\<close> on an actor that is already inside an \<open>Apply\<close>, or
  on the source, whose actor is running this handler, never returns; \<open>held\<close> lists those
  actors and \<open>None\<close> is that deadlock. The text of an error body is left out.
\<close>

fun transferSplits ::
  "vbucket \<Rightarrow> VBSplitRangePart list \<Rightarrow> 16 word list \<Rightarrow> vbuckets \<Rightarrow> (MCResponse \<times> vbuckets) option" where
  "transferSplits v [] held b = Some (MCResponse_zero, b)"
| "transferSplits v (split # rest) held b =
     (let vbid' = (word_of_int (VBucketId split) :: 16 word);
          cr = (if vbid' \<noteq> vbid v then CreateVBucket b vbid' else (None, b));
          b1 = snd cr;
          vb' = (case fst cr of None \<Rightarrow> getVBucket b1 vbid' | Some x \<Rightarrow> Some x)
      in case vb' of
           None \<Rightarrow> Some (MCResponse_zero\<lparr>Status := EINVAL\<rparr>, b1)
         | Some vbLocked \<Rightarrow>
             if vbid' \<in> set held then None
             else if state vbLocked = VBDead
             then (case transferSplits v rest (vbid' # held) b1 of
                     None \<Rightarrow> None
                   | Some (res, b2) \<Rightarrow>
                       if Status res = SUCCESS
                       then Some (res, b2(vbid' \<mapsto> rangeCopyTo v vbLocked
                                    (VBSplitRangePart.MinKeyInclusive split)
                                    (VBSplitRangePart.MaxKeyExclusive split)))
                       else Some (res, b2))
             else Some (MCResponse_zero\<lparr>Status := EINVAL\<rparr>, b1))"

text \<open>
  \<open>splitRangeActual\<close> returns the response, the source as it leaves it, and the
  partitions of the bucket, where the source stands under its own id.
\<close>

definition splitRangeActual ::
  "vbuckets \<Rightarrow> vbucket \<Rightarrow> VBSplitRangePart list \<Rightarrow> (MCResponse \<times> vbucket \<times> vbuckets) option" where
  "splitRangeActual b v splits =
     (case transferSplits v splits [vbid v] b of
        None \<Rightarrow> None
      | Some (res, b') \<Rightarrow>
          if Status res = SUCCESS
          then (let v' = v\<lparr>items := NewTreap KeyLess, changes := NewTreap CASLess,
                            state := VBDead,
                            config := Some \<lparr>VBConfig.MinKeyInclusive = [],
                                             VBConfig.MaxKeyExclusive = []\<rparr>\<rparr>
                in Some (res, v', b'(vbid v \<mapsto> v')))
          else Some (res, v, b'))"

text \<open>The validation loop of \<open>splitRange\<close>; \<open>max'\<close> is its variable \<open>max\<close>.\<close>

fun validateSplits :: "int \<Rightarrow> vbucket \<Rightarrow> int \<Rightarrow> VBSplitRangePart list \<Rightarrow> MCResponse option" where
  "validateSplits MAX_VBUCKET v max' [] = None"
| "validateSplits MAX_VBUCKET v max' (split # rest) =
     (if VBucketId split < 0 \<or> VBucketId split \<ge> MAX_VBUCKET
      then Some (MCResponse_zero\<lparr>Status := EINVAL\<rparr>)
      else if VBucketId split \<le> max' \<or> (word_of_int (VBucketId split) :: 16 word) = vbid v
      then Some (MCResponse_zero\<lparr>Status := EINVAL\<rparr>)
      else validateSplits MAX_VBUCKET v (VBucketId split) rest)"

text \<open>
  \<open>splitRange\<close>. The constant \<open>MAX_VBUCKET\<close> is declared outside the sources and is a
  parameter. \<open>sort.Sort\<close> orders the splits by partition id; where two splits have the
  same id their order is not fixed by the sort, and the validation rejects the request
  whichever comes first.
\<close>

definition splitRange ::
  "int \<Rightarrow> vbuckets \<Rightarrow> vbucket \<Rightarrow> VBSplitRange \<Rightarrow> (MCResponse \<times> vbucket \<times> vbuckets) option" where
  "splitRange MAX_VBUCKET b v sr =
     (if length (Splits sr) < 1 then Some (MCResponse_zero\<lparr>Status := EINVAL\<rparr>, v, b)
      else
        (let splits = sort_key VBucketId (Splits sr)
         in case validateSplits MAX_VBUCKET v (-1) splits of
              Some err \<Rightarrow> Some (err, v, b)
            | None \<Rightarrow> splitRangeActual b v splits))"

section \<open>View refresh\<close>

text \<open>
  Of the partition of \<open>view_refresh.go\<close> only the staleness counter (an \<open>int64\<close>) matters
  to the functions below. \<open>viewsRefresh_unlocked\<close> works on the stores and the script
  runtime, which are outside the sources; \<open>viewsRefresh\<close> reads of it only the error it
  returns, so it is a parameter: a function from the partition to that error (\<open>None\<close> is
  nil) and the partition as the call leaves it.
\<close>

type_synonym error = string

record VBucket =
  staleness :: "64 word"

text \<open>\<open>markStale\<close>: the second component says whether the partition registered with the refresher.\<close>

definition markStale :: "VBucket \<Rightarrow> VBucket \<times> bool" where
  "markStale v =
     (let newval = staleness v + 1
      in (v\<lparr>staleness := newval\<rparr>, newval = 1))"

definition viewsRefresh ::
  "(VBucket \<Rightarrow> error option \<times> VBucket) \<Rightarrow> VBucket \<Rightarrow> (64 word \<times> error option) \<times> VBucket" where
  "viewsRefresh viewsRefresh_unlocked v =
     (let d = staleness v
      in case viewsRefresh_unlocked v of
           (Some err, v') \<Rightarrow> ((0, Some err), v')
         | (None, v') \<Rightarrow>
             (let v'' = v'\<lparr>staleness := staleness v' - d\<rparr>
              in ((staleness v'', None), v'')))"

definition periodicViewsRefresh ::
  "(VBucket \<Rightarrow> error option \<times> VBucket) \<Rightarrow> VBucket \<Rightarrow> bool \<times> VBucket" where
  "periodicViewsRefresh viewsRefresh_unlocked v =
     (case viewsRefresh viewsRefresh_unlocked v of
        ((leftovers, err), v') \<Rightarrow> (sint leftovers > 0, v'))"

section \<open>Sequences of commands\<close>

text \<open>
  The actor of a partition serves one request at a time, so a run of key commands is the
  handlers applied one after the other, each to the partition the one before left.
\<close>

datatype command = CmdGet vbreq | CmdSet vbreq | CmdDelete vbreq

fun exec :: "vbucket \<Rightarrow> command \<Rightarrow> handled" where
  "exec v (CmdGet vbr) = vbGet v vbr"
| "exec v (CmdSet vbr) = vbSet v vbr"
| "exec v (CmdDelete vbr) = vbDelete v vbr"

fun execs :: "vbucket \<Rightarrow> command list \<Rightarrow> (MCResponse option \<times> mutation option) list \<times> vbucket" where
  "execs v [] = ([], v)"
| "execs v (c # cs) =
     (case exec v c of
        (res, m, v') \<Rightarrow>
          (case execs v' cs of (out, v'') \<Rightarrow> ((res, m) # out, v'')))"

text \<open>The mutations a run broadcast, in order.\<close>

definition mutations :: "(MCResponse option \<times> mutation option) list \<Rightarrow> mutation list" where
  "mutations out = List.map_filter snd out"

section \<open>Vocabulary of the properties\<close>

text \<open>
  The configured range in the words of the specification: a key is outside when it is
  below \<open>MinKeyInclusive\<close> or at or above \<open>MaxKeyExclusive\<close>, an empty bound being open;
  with no config there is no range to be outside of.
\<close>

definition outsideRange :: "VBConfig option \<Rightarrow> byte list \<Rightarrow> bool" where
  "outsideRange cfg k =
     (case cfg of
        None \<Rightarrow> False
      | Some c \<Rightarrow>
          (VBConfig.MinKeyInclusive c \<noteq> [] \<and> bytes_Compare k (VBConfig.MinKeyInclusive c) < 0) \<or>
          (VBConfig.MaxKeyExclusive c \<noteq> [] \<and> bytes_Compare k (VBConfig.MaxKeyExclusive c) \<ge> 0))"

text \<open>The items tree, the changes tree and the cas counter are what they were.\<close>

definition kept :: "vbucket \<Rightarrow> vbucket \<Rightarrow> bool" where
  "kept v v' = (items v' = items v \<and> changes v' = changes v \<and> vbucket.cas v' = vbucket.cas v)"

text \<open>
  A set or delete succeeds when it applies its mutation: the mutation is broadcast, and the
  response, where one is sent (a quiet opcode sends none), has status \<open>SUCCESS\<close>.
\<close>

definition succeeds :: "handled \<Rightarrow> bool" where
  "succeeds h =
     (case h of (res, m, v') \<Rightarrow>
        m \<noteq> None \<and> (case res of None \<Rightarrow> True | Some r \<Rightarrow> Status r = SUCCESS \<and> \<not> Fatal r))"

text \<open>
  Success read from the response alone. A set answers every failure with an error status
  and sends nothing only where a quiet opcode succeeded; a delete answers every success,
  and sends nothing only where a quiet opcode missed the key.
\<close>

definition set_succeeded :: "MCResponse option \<Rightarrow> bool" where
  "set_succeeded res = (case res of None \<Rightarrow> True | Some r \<Rightarrow> Status r = SUCCESS)"

definition delete_succeeded :: "MCResponse option \<Rightarrow> bool" where
  "delete_succeeded res = (case res of None \<Rightarrow> False | Some r \<Rightarrow> Status r = SUCCESS)"

text \<open>The current item of a key, as the handlers look it up.\<close>

definition stored :: "vbucket \<Rightarrow> byte list \<Rightarrow> item option" where
  "stored v k = Get (items v) (item_zero\<lparr>item.key := k\<rparr>)"

text \<open>An item with the request key exists and its CAS equals the request CAS.\<close>

definition cas_matches :: "vbucket \<Rightarrow> MCRequest \<Rightarrow> bool" where
  "cas_matches v r =
     (case stored v (MCRequest.Key r) of
        None \<Rightarrow> False
      | Some i \<Rightarrow> item.cas i = MCRequest.Cas r)"

definition keys_of :: "Treap \<Rightarrow> byte list list" where
  "keys_of t = map item.key (contents t)"

definition responses :: "(MCResponse option \<times> mutation option) list \<Rightarrow> MCResponse option list" where
  "responses out = map fst out"

section \<open>Example requests and partitions\<close>

text \<open>A request from a client connection whose writes succeed.\<close>

definition client :: writer where
  "client = (\<lambda>pkt. True)"

definition request :: "CommandCode \<Rightarrow> byte list \<Rightarrow> byte list option \<Rightarrow> 64 word \<Rightarrow> vbreq" where
  "request opc k body c =
     \<lparr>w = Some client,
      req = \<lparr>MCRequest.Opcode = opc, MCRequest.Cas = c, MCRequest.Key = k,
             MCRequest.Body = body\<rparr>\<rparr>"

text \<open>The key \<open>a\<close> (byte 0x61) set three times, to \<open>1\<close>, \<open>2\<close> and \<open>9\<close>, each with request cas 0.\<close>

definition set_a_thrice :: "command list" where
  "set_a_thrice =
     [CmdSet (request SET [0x61] (Some [0x31]) 0),
      CmdSet (request SET [0x61] (Some [0x32]) 0),
      CmdSet (request SET [0x61] (Some [0x39]) 0)]"

definition a_thrice :: vbucket where
  "a_thrice = snd (execs (newVBucket 0) set_a_thrice)"

text \<open>Two sets of the key \<open>a\<close> and then a delete of it, each with request cas 0.\<close>

definition set_set_delete :: "command list" where
  "set_set_delete =
     [CmdSet (request SET [0x61] (Some [0x31]) 0),
      CmdSet (request SET [0x61] (Some [0x32]) 0),
      CmdDelete (request DELETE [0x61] None 0)]"

text \<open>A fresh partition after a set of the key \<open>b\<close> and a set of the key \<open>a\<close>: \<open>a\<close> is at cas 1.\<close>

definition two_keys :: vbucket where
  "two_keys =
     snd (execs (newVBucket 0)
       [CmdSet (request SET [0x62] (Some [0x31]) 0),
        CmdSet (request SET [0x61] (Some [0x31]) 0)])"

text \<open>
  The same partition after a \<open>SET_VBUCKET_CONFIG\<close> whose body decodes to the range that
  starts at the key \<open>m\<close> (byte 0x6d) and has no upper bound: both stored keys are now outside.
\<close>

definition narrowed :: vbucket where
  "narrowed =
     snd (snd (vbSetConfig
       (\<lambda>body. Some \<lparr>VBConfig.MinKeyInclusive = [0x6d], VBConfig.MaxKeyExclusive = []\<rparr>)
       two_keys (request SET_VBUCKET_CONFIG [] (Some []) 0)))"

text \<open>
  The split scenario of the specification: an active source partition 0 that holds the keys
  \<open>a\<close>, \<open>m\<close> and \<open>z\<close> (bytes 0x61, 0x6d, 0x7a), alone in its bucket, and a request that gives
  the keys below \<open>n\<close> (byte 0x6e) to partition 1 and the keys from \<open>n\<close> on to partition 2.
\<close>

definition three_keys :: vbucket where
  "three_keys =
     (snd (execs (newVBucket 0)
        [CmdSet (request SET [0x61] (Some [0x31]) 0),
         CmdSet (request SET [0x6d] (Some [0x32]) 0),
         CmdSet (request SET [0x7a] (Some [0x33]) 0)]))\<lparr>state := VBActive\<rparr>"

definition bucket_of_three_keys :: vbuckets where
  "bucket_of_three_keys = Map.empty(0 \<mapsto> three_keys)"

definition split_at_n :: VBSplitRange where
  "split_at_n =
     \<lparr>Splits =
        [\<lparr>VBucketId = 1, VBSplitRangePart.MinKeyInclusive = [],
          VBSplitRangePart.MaxKeyExclusive = [0x6e]\<rparr>,
         \<lparr>VBucketId = 2, VBSplitRangePart.MinKeyInclusive = [0x6e],
          VBSplitRangePart.MaxKeyExclusive = []\<rparr>]\<rparr>"

text \<open>
  A bucket with two partitions: partition 0 is \<open>a_thrice\<close>, never activated and so still
  dead, with its counter at 3; partition 5 has seen one set of the key \<open>b\<close> and has its
  counter at 1. The request splits partition 5 into partition 0, with an open range.
\<close>

definition b_once :: vbucket where
  "b_once = snd (execs (newVBucket 5) [CmdSet (request SET [0x62] (Some [0x31]) 0)])"

definition bucket_with_dead_0 :: vbuckets where
  "bucket_with_dead_0 = Map.empty(0 \<mapsto> a_thrice, 5 \<mapsto> b_once)"

definition split_5_into_0 :: VBSplitRange where
  "split_5_into_0 =
     \<lparr>Splits = [\<lparr>VBucketId = 0, VBSplitRangePart.MinKeyInclusive = [],
                  VBSplitRangePart.MaxKeyExclusive = []\<rparr>]\<rparr>"

text \<open>
  A refresh that fails, as \<open>viewsRefresh_unlocked\<close> does for partition 0 when the views
  store has no back index store for it.
\<close>

definition failing_refresh :: "VBucket \<Rightarrow> error option \<times> VBucket" where
  "failing_refresh v = (Some ''missing back index store, vbid: 0'', v)"

section \<open>Evaluation\<close>

lemmas Status_defs = SUCCESS_def KEY_ENOENT_def EINVAL_def UNKNOWN_COMMAND_def NOT_MY_RANGE_def

lemmas handler_defs = vbGet_def vbSet_def vbDelete_def vbSetConfig_def checkRange_def Get_def
  Upsert_def Delete_def NewTreap_def newVBucket_def KeyLess_def CASLess_def item_zero_def
  MCResponse_zero_def Stats_zero_def IsQuiet_def len_def request_def client_def

section \<open>The range check\<close>

lemma checkRange_outside:
  "outsideRange (config v) (MCRequest.Key r) \<Longrightarrow>
     checkRange v r = (Some (MCResponse_zero\<lparr>Status := NOT_MY_RANGE\<rparr>),
       v\<lparr>stats := (stats v)\<lparr>ErrNotMyRange := ErrNotMyRange (stats v) + 1\<rparr>\<rparr>)"
  by (auto simp: outsideRange_def checkRange_def split: option.splits)

lemma checkRange_inside:
  "\<not> outsideRange (config v) (MCRequest.Key r) \<Longrightarrow> checkRange v r = (None, v)"
  by (auto simp: outsideRange_def checkRange_def split: option.splits)

lemma checkRange_inside_stats:
  "\<not> outsideRange (config v) (MCRequest.Key r) \<Longrightarrow>
     checkRange (v\<lparr>stats := s\<rparr>) r = (None, v\<lparr>stats := s\<rparr>)"
  by (rule checkRange_inside) simp

text \<open>
  Claim C4. A get, set or delete whose key lies outside the configured range of the
  partition answers \<open>NOT_MY_RANGE\<close>, broadcasts nothing, and leaves the items tree, the
  changes tree and the cas counter as they were.
\<close>

theorem out_of_range:
  assumes "outsideRange (config v) (MCRequest.Key (req vbr))"
  shows "(case vbGet v vbr of (res, m, v') \<Rightarrow>
            res = Some (MCResponse_zero\<lparr>Status := NOT_MY_RANGE\<rparr>) \<and> m = None \<and> kept v v') \<and>
         (case vbSet v vbr of (res, m, v') \<Rightarrow>
            res = Some (MCResponse_zero\<lparr>Status := NOT_MY_RANGE\<rparr>) \<and> m = None \<and> kept v v') \<and>
         (case vbDelete v vbr of (res, m, v') \<Rightarrow>
            res = Some (MCResponse_zero\<lparr>Status := NOT_MY_RANGE\<rparr>) \<and> m = None \<and> kept v v')"
proof -
  have g: "\<And>s. outsideRange (config (v\<lparr>stats := s\<rparr>)) (MCRequest.Key (req vbr))"
    using assms by simp
  show ?thesis
    by (simp add: vbGet_def vbSet_def vbDelete_def Let_def checkRange_outside [OF g]
        checkRange_outside [OF assms] kept_def)
qed

text \<open>
  The key \<open>a\<close> against a partition whose range starts at \<open>m\<close>: the get is refused and
  the partition stays empty with its counter at 0.
\<close>

theorem out_of_range_witness:
  "outsideRange
     (config ((newVBucket 0)\<lparr>config :=
        Some \<lparr>VBConfig.MinKeyInclusive = [0x6d], VBConfig.MaxKeyExclusive = []\<rparr>\<rparr>))
     (MCRequest.Key (req (request GET [0x61] None 0))) \<and>
   (case vbGet ((newVBucket 0)\<lparr>config :=
            Some \<lparr>VBConfig.MinKeyInclusive = [0x6d], VBConfig.MaxKeyExclusive = []\<rparr>\<rparr>)
          (request GET [0x61] None 0) of
      (res, m, v') \<Rightarrow> map_option Status res = Some NOT_MY_RANGE \<and> m = None \<and>
         contents (items v') = [] \<and> vbucket.cas v' = 0)"
  using out_of_range [of "(newVBucket 0)\<lparr>config :=
      Some \<lparr>VBConfig.MinKeyInclusive = [0x6d], VBConfig.MaxKeyExclusive = []\<rparr>\<rparr>"
      "request GET [0x61] None 0"]
  by (simp add: outsideRange_def request_def newVBucket_def kept_def NewTreap_def
      split: prod.splits)

section \<open>The basic round trip\<close>

text \<open>
  Claim C2, as the specification states it: on a fresh partition with no range config,
  three sets of the key \<open>a\<close> (values \<open>1\<close>, \<open>2\<close>, \<open>9\<close>), each with request cas 0, are answered
  cas 0, cas 1 and \<open>EINVAL\<close>. The code answers the third with success: a request cas of 0
  makes the set unconditional.
\<close>

theorem three_sets_counterexample:
  "map (map_option Status)
     (responses (fst (execs (newVBucket 0)
        [CmdSet (request SET [0x61] (Some [0x31]) 0),
         CmdSet (request SET [0x61] (Some [0x32]) 0),
         CmdSet (request SET [0x61] (Some [0x39]) 0)])))
   \<noteq> [Some SUCCESS, Some SUCCESS, Some EINVAL]"
  by (simp add: handler_defs responses_def SET_def Status_defs Let_def)

text \<open>
  Claim C2, amended: the three sets are answered cas 0, cas 1 and cas 2, and the
  partition then holds the key \<open>a\<close> with the value \<open>9\<close> at cas 2.
\<close>

theorem three_sets:
  "responses (fst (execs (newVBucket 0)
        [CmdSet (request SET [0x61] (Some [0x31]) 0),
         CmdSet (request SET [0x61] (Some [0x32]) 0),
         CmdSet (request SET [0x61] (Some [0x39]) 0)]))
     = [Some (MCResponse_zero\<lparr>MCResponse.Cas := 0\<rparr>),
        Some (MCResponse_zero\<lparr>MCResponse.Cas := 1\<rparr>),
        Some (MCResponse_zero\<lparr>MCResponse.Cas := 2\<rparr>)] \<and>
   contents (items (snd (execs (newVBucket 0)
        [CmdSet (request SET [0x61] (Some [0x31]) 0),
         CmdSet (request SET [0x61] (Some [0x32]) 0),
         CmdSet (request SET [0x61] (Some [0x39]) 0)])))
     = [\<lparr>item.key = [0x61], exp = 0, flag = 0, item.cas = 2, data = Some [0x39]\<rparr>]"
  by (simp add: handler_defs responses_def SET_def Status_defs Let_def)

section \<open>Conditional writes\<close>

lemma two_keys_eval:
  "contents (items two_keys) =
     [\<lparr>item.key = [0x61], exp = 0, flag = 0, item.cas = 1, data = Some [0x31]\<rparr>,
      \<lparr>item.key = [0x62], exp = 0, flag = 0, item.cas = 0, data = Some [0x31]\<rparr>]"
  "compare (items two_keys) = KeyLess"
  "config two_keys = None"
  "vbucket.cas two_keys = 2"
  by (simp_all add: two_keys_def handler_defs SET_def Let_def)

lemma narrowed_eval:
  "items narrowed = items two_keys"
  "config narrowed = Some \<lparr>VBConfig.MinKeyInclusive = [0x6d], VBConfig.MaxKeyExclusive = []\<rparr>"
  by (simp_all add: narrowed_def vbSetConfig_def request_def)

lemma vbSet_conditional:
  assumes "MCRequest.Cas (req vbr) \<noteq> 0"
    and "\<not> outsideRange (config v) (MCRequest.Key (req vbr))"
  shows "succeeds (vbSet v vbr) = cas_matches v (req vbr)"
    and "\<not> cas_matches v (req vbr) \<Longrightarrow>
          (case vbSet v vbr of (res, m, v') \<Rightarrow>
             res = Some (MCResponse_zero\<lparr>Status := EINVAL\<rparr>) \<and> m = None \<and> kept v v')"
  using assms
  by (auto simp: vbSet_def Let_def checkRange_inside_stats succeeds_def cas_matches_def
      stored_def kept_def MCResponse_zero_def Status_defs split: option.splits)

lemma vbDelete_conditional:
  assumes "MCRequest.Cas (req vbr) \<noteq> 0"
    and "\<not> outsideRange (config v) (MCRequest.Key (req vbr))"
  shows "succeeds (vbDelete v vbr) = cas_matches v (req vbr)"
    and "(case vbDelete v vbr of (res, m, v') \<Rightarrow>
           (case stored v (MCRequest.Key (req vbr)) of
              Some i \<Rightarrow> item.cas i \<noteq> MCRequest.Cas (req vbr) \<longrightarrow>
                 res = Some (MCResponse_zero\<lparr>Status := EINVAL\<rparr>) \<and> m = None \<and> kept v v'
            | None \<Rightarrow>
                 res = (if IsQuiet (MCRequest.Opcode (req vbr)) then None
                        else Some (MCResponse_zero\<lparr>Status := KEY_ENOENT\<rparr>)) \<and>
                 m = None \<and> kept v v'))"
  using assms
  by (auto simp: vbDelete_def Let_def checkRange_inside_stats succeeds_def cas_matches_def
      stored_def kept_def MCResponse_zero_def Status_defs split: option.splits)

text \<open>
  Claim C1, as the specification states it: for every partition state, a set or delete with
  a request cas other than 0 succeeds if and only if an item with the request key exists
  and its CAS equals the request cas. It fails on the partition \<open>narrowed\<close>: the key \<open>a\<close> is
  stored at cas 1, the request cas is 1, and the set is refused, because the range of the
  partition was moved past the key after the key was stored and the range check comes
  first.
\<close>

theorem conditional_ops_counterexample:
  "MCRequest.Cas (req (request SET [0x61] (Some [0x32]) 1)) \<noteq> 0 \<and>
   cas_matches narrowed (req (request SET [0x61] (Some [0x32]) 1)) \<and>
   \<not> succeeds (vbSet narrowed (request SET [0x61] (Some [0x32]) 1)) \<and>
   map_option Status (fst (vbSet narrowed (request SET [0x61] (Some [0x32]) 1))) = Some NOT_MY_RANGE"
  by (simp add: cas_matches_def stored_def succeeds_def narrowed_eval two_keys_eval
      vbSet_def checkRange_def Get_def KeyLess_def item_zero_def request_def
      MCResponse_zero_def Status_defs Let_def)

text \<open>
  Claim C1, amended. For a set or delete with a request cas other than 0 whose key is
  within the configured range of the partition: the operation succeeds if and only if an
  item with the request key exists and its CAS equals the request cas. A set that does not
  succeed answers \<open>EINVAL\<close>; a delete answers \<open>EINVAL\<close> where the item exists with another
  CAS, and \<open>KEY_ENOENT\<close> (nothing for a quiet opcode) where there is no item. In each of
  these failures the items tree, the changes tree and the cas counter are unchanged.
\<close>

theorem conditional_ops:
  assumes "MCRequest.Cas (req vbr) \<noteq> 0"
    and "\<not> outsideRange (config v) (MCRequest.Key (req vbr))"
  shows "succeeds (vbSet v vbr) = cas_matches v (req vbr) \<and>
         succeeds (vbDelete v vbr) = cas_matches v (req vbr) \<and>
         (\<not> cas_matches v (req vbr) \<longrightarrow>
            (case vbSet v vbr of (res, m, v') \<Rightarrow>
               res = Some (MCResponse_zero\<lparr>Status := EINVAL\<rparr>) \<and> m = None \<and> kept v v')) \<and>
         (case vbDelete v vbr of (res, m, v') \<Rightarrow>
            (case stored v (MCRequest.Key (req vbr)) of
               Some i \<Rightarrow> item.cas i \<noteq> MCRequest.Cas (req vbr) \<longrightarrow>
                  res = Some (MCResponse_zero\<lparr>Status := EINVAL\<rparr>) \<and> m = None \<and> kept v v'
             | None \<Rightarrow>
                  res = (if IsQuiet (MCRequest.Opcode (req vbr)) then None
                         else Some (MCResponse_zero\<lparr>Status := KEY_ENOENT\<rparr>)) \<and>
                  m = None \<and> kept v v'))"
  using vbSet_conditional [OF assms] vbDelete_conditional [OF assms] by blast

text \<open>
  On the partition \<open>two_keys\<close>, which has no range config and holds \<open>a\<close> at cas 1: a set of
  \<open>a\<close> with request cas 1 succeeds, and so does a delete of \<open>a\<close> with request cas 1.
\<close>

theorem conditional_ops_witness:
  "MCRequest.Cas (req (request SET [0x61] (Some [0x32]) 1)) \<noteq> 0 \<and>
   \<not> outsideRange (config two_keys) (MCRequest.Key (req (request SET [0x61] (Some [0x32]) 1))) \<and>
   cas_matches two_keys (req (request SET [0x61] (Some [0x32]) 1)) \<and>
   succeeds (vbSet two_keys (request SET [0x61] (Some [0x32]) 1)) \<and>
   MCRequest.Cas (req (request DELETE [0x61] None 1)) \<noteq> 0 \<and>
   \<not> outsideRange (config two_keys) (MCRequest.Key (req (request DELETE [0x61] None 1))) \<and>
   cas_matches two_keys (req (request DELETE [0x61] None 1)) \<and>
   succeeds (vbDelete two_keys (request DELETE [0x61] None 1))"
proof -
  have c: "MCRequest.Cas (req (request SET [0x61] (Some [0x32]) 1)) \<noteq> 0"
    and c': "MCRequest.Cas (req (request DELETE [0x61] None 1)) \<noteq> 0"
    by (simp_all add: request_def)
  have r: "\<not> outsideRange (config two_keys)
             (MCRequest.Key (req (request SET [0x61] (Some [0x32]) 1)))"
    and r': "\<not> outsideRange (config two_keys)
             (MCRequest.Key (req (request DELETE [0x61] None 1)))"
    by (simp_all add: outsideRange_def two_keys_eval)
  have m: "cas_matches two_keys (req (request SET [0x61] (Some [0x32]) 1))"
    and m': "cas_matches two_keys (req (request DELETE [0x61] None 1))"
    by (simp_all add: cas_matches_def stored_def two_keys_eval Get_def KeyLess_def
        item_zero_def request_def)
  show ?thesis
    using conditional_ops [OF c r] conditional_ops [OF c' r'] c c' r r' m m' by simp
qed

section \<open>CAS assignment\<close>

lemma mutations_Nil: "mutations [] = []"
  by (simp add: mutations_def)

lemma mutations_Cons:
  "mutations ((res, m) # out) =
     (case m of None \<Rightarrow> mutations out | Some mu \<Rightarrow> mu # mutations out)"
  by (simp add: mutations_def split: option.splits)

text \<open>One command: what it does to the counter and to the changes tree.\<close>

lemma vbGet_step:
  "vbGet v vbr = (res, m, v1) \<Longrightarrow>
     m = None \<and> changes v1 = changes v \<and> vbucket.cas v1 = vbucket.cas v"
  by (auto simp: vbGet_def Let_def checkRange_def split: option.splits if_splits prod.splits)

lemma vbSet_step:
  "vbSet v vbr = (res, m, v1) \<Longrightarrow>
     (case m of
        None \<Rightarrow> changes v1 = changes v \<and> vbucket.cas v1 = vbucket.cas v
      | Some mu \<Rightarrow>
          mcas mu = vbucket.cas v \<and> vbucket.cas v1 = vbucket.cas v + 1 \<and>
          changes v1 = Upsert (changes v)
             \<lparr>item.key = mkey mu, exp = 0, flag = 0, item.cas = vbucket.cas v,
              data = MCRequest.Body (req vbr)\<rparr>)"
  by (auto simp: vbSet_def Let_def checkRange_def split: option.splits if_splits prod.splits)

lemma vbDelete_step:
  "vbDelete v vbr = (res, m, v1) \<Longrightarrow>
     (case m of
        None \<Rightarrow> changes v1 = changes v \<and> vbucket.cas v1 = vbucket.cas v
      | Some mu \<Rightarrow>
          mcas mu = vbucket.cas v \<and> vbucket.cas v1 = vbucket.cas v + 1 \<and>
          changes v1 = Upsert (changes v)
             \<lparr>item.key = mkey mu, exp = 0, flag = 0, item.cas = vbucket.cas v, data = None\<rparr>)"
  by (auto simp: vbDelete_def Let_def checkRange_def split: option.splits if_splits prod.splits)

lemma exec_step:
  assumes e: "exec v c = (res, m, v1)"
  shows
    "(case m of
        None \<Rightarrow> changes v1 = changes v \<and> vbucket.cas v1 = vbucket.cas v
      | Some mu \<Rightarrow>
          mcas mu = vbucket.cas v \<and> vbucket.cas v1 = vbucket.cas v + 1 \<and>
          (\<exists>d. changes v1 = Upsert (changes v)
             \<lparr>item.key = mkey mu, exp = 0, flag = 0, item.cas = vbucket.cas v, data = d\<rparr>))"
proof (cases c)
  case (CmdGet vbr)
  then show ?thesis using e vbGet_step [of v vbr res m v1] by auto
next
  case (CmdSet vbr)
  then show ?thesis using e vbSet_step [of v vbr res m v1] by (auto split: option.splits)
next
  case (CmdDelete vbr)
  then show ?thesis using e vbDelete_step [of v vbr res m v1] by (auto split: option.splits)
qed

lemma upsert_list_mem: "x \<in> set (upsert_list c x ys)"
  by (induction ys) auto

lemma upsert_list_append:
  "\<forall>y\<in>set ys. 0 < c x y \<Longrightarrow> upsert_list c x ys = ys @ [x]"
  by (induction ys) auto

text \<open>The items tree after a set and after a delete.\<close>

lemma bytes_Compare_refl: "bytes_Compare a a = 0"
  by (induction a) auto

lemma find_upsert_list:
  assumes "\<And>y. c probe y = c x y" and "c x x = 0"
  shows "find (\<lambda>y. c probe y = 0) (upsert_list c x ys) = Some x"
  using assms by (induction ys) auto

text \<open>After a set that succeeded, the key holds the new item, with the CAS the set was assigned.\<close>

lemma vbSet_stored:
  assumes "vbSet v vbr = (res, Some mu, v')" and "compare (items v) = KeyLess"
  shows "stored v' (MCRequest.Key (req vbr)) =
           Some \<lparr>item.key = MCRequest.Key (req vbr), exp = 0, flag = 0,
                 item.cas = vbucket.cas v, data = MCRequest.Body (req vbr)\<rparr>"
proof -
  let ?new = "\<lparr>item.key = MCRequest.Key (req vbr), exp = 0, flag = 0,
                 item.cas = vbucket.cas v, data = MCRequest.Body (req vbr)\<rparr>"
  have i: "items v' = Upsert (items v) ?new"
    using assms(1)
    by (auto simp: vbSet_def Let_def checkRange_def split: option.splits if_splits prod.splits)
  have "find (\<lambda>y. KeyLess (item_zero\<lparr>item.key := MCRequest.Key (req vbr)\<rparr>) y = 0)
          (upsert_list KeyLess ?new (contents (items v))) = Some ?new"
    by (rule find_upsert_list) (simp_all add: KeyLess_def bytes_Compare_refl)
  then show ?thesis
    using assms(2) by (simp add: stored_def Get_def i Upsert_def)
qed

text \<open>After a delete that succeeded, the key holds nothing.\<close>

lemma vbDelete_stored:
  assumes "vbDelete v vbr = (res, Some mu, v')"
  shows "stored v' (MCRequest.Key (req vbr)) = None"
proof -
  have i: "items v' = Delete (items v) (item_zero\<lparr>item.key := MCRequest.Key (req vbr)\<rparr>)"
    using assms
    by (auto simp: vbDelete_def Let_def checkRange_def split: option.splits if_splits prod.splits)
  have "find P (filter (\<lambda>x. \<not> P x) xs) = None" for P :: "item \<Rightarrow> bool" and xs
    by (induction xs) auto
  then show ?thesis
    by (simp add: stored_def Get_def i Delete_def)
qed

text \<open>The CAS values a run assigns are the counter's values, one after the other.\<close>

lemma execs_mcas:
  "execs v cmds = (out, v') \<Longrightarrow>
     map mcas (mutations out) =
       map (\<lambda>i. vbucket.cas v + of_nat i) [0..<length (mutations out)] \<and>
     vbucket.cas v' = vbucket.cas v + of_nat (length (mutations out)) \<and>
     length (mutations out) \<le> length cmds"
proof (induction cmds arbitrary: v out)
  case Nil
  then show ?case by (simp add: mutations_Nil)
next
  case (Cons c cs)
  obtain res m v1 where e: "exec v c = (res, m, v1)" by (cases "exec v c") auto
  obtain out1 where r: "execs v1 cs = (out1, v')" and o: "out = (res, m) # out1"
    using Cons.prems e by (auto split: prod.splits)
  note ih = Cons.IH [OF r]
  show ?case
  proof (cases m)
    case None
    then show ?thesis using ih exec_step [OF e] o by (simp add: mutations_Cons)
  next
    case (Some mu)
    have c1: "vbucket.cas v1 = vbucket.cas v + 1" and mc: "mcas mu = vbucket.cas v"
      using exec_step [OF e] Some by auto
    have "map (\<lambda>i. vbucket.cas v + of_nat i) [0..<Suc (length (mutations out1))]
        = vbucket.cas v # map (\<lambda>i. vbucket.cas v1 + of_nat i) [0..<length (mutations out1)]"
      by (simp add: upt_conv_Cons c1 map_Suc_upt [symmetric] add.assoc del: upt_Suc)
    then show ?thesis using ih o Some c1 mc by (simp add: mutations_Cons add.assoc)
  qed
qed

text \<open>Below the wrap-around of the 64-bit counter, adding more gives more.\<close>

lemma word_shift_mono:
  fixes c :: "64 word"
  assumes "unat c + n \<le> 2 ^ 64" and "i < j" and "j < n"
  shows "c + of_nat i < c + of_nat j"
proof -
  have i: "unat (of_nat i :: 64 word) = i" and j: "unat (of_nat j :: 64 word) = j"
    using assms by (simp_all add: unat_of_nat)
  have "unat (c + of_nat i) = unat c + i" "unat (c + of_nat j) = unat c + j"
    using assms i j by (simp_all add: unat_add_lem [THEN iffD1])
  then show ?thesis using assms by (simp add: word_less_nat_alt)
qed

lemma sorted_shift:
  fixes c :: "64 word"
  assumes "unat c + n \<le> 2 ^ 64"
  shows "sorted_wrt (<) (map (\<lambda>i. c + of_nat i) [0..<n])"
  using assms by (auto simp: sorted_wrt_iff_nth_less intro: word_shift_mono)

lemma word_less_succ:
  fixes c :: "64 word"
  assumes "unat c + 1 < 2 ^ 64"
  shows "c < c + 1" and "unat (c + 1) = unat c + 1"
proof -
  have "unat (c + 1) = unat c + unat (1 :: 64 word)"
    by (rule unat_add_lem [THEN iffD1]) (use assms in simp)
  then show "unat (c + 1) = unat c + 1" by simp
  then show "c < c + 1" by (simp add: word_less_nat_alt)
qed

text \<open>
  A set succeeds exactly when its key is within the range and its request cas is 0 or
  matches; it then broadcasts the counter's value, writes the record and leaves the
  counter one higher. A set that fails leaves trees and counter as they were.
\<close>

lemma vbSet_success:
  assumes "vbSet p vbr = (res, m, p')"
  shows "set_succeeded res =
           (\<not> outsideRange (config p) (MCRequest.Key (req vbr)) \<and>
            (MCRequest.Cas (req vbr) = 0 \<or> cas_matches p (req vbr)))"
    and "set_succeeded res \<Longrightarrow>
           m = Some \<lparr>vb = vbid p, mkey = MCRequest.Key (req vbr), mcas = vbucket.cas p,
                      deleted = False\<rparr> \<and>
           vbucket.cas p' = vbucket.cas p + 1 \<and>
           changes p' = Upsert (changes p)
             \<lparr>item.key = MCRequest.Key (req vbr), exp = 0, flag = 0,
              item.cas = vbucket.cas p, data = MCRequest.Body (req vbr)\<rparr>"
    and "\<not> set_succeeded res \<Longrightarrow> m = None \<and> kept p p'"
proof -
  show "set_succeeded res =
           (\<not> outsideRange (config p) (MCRequest.Key (req vbr)) \<and>
            (MCRequest.Cas (req vbr) = 0 \<or> cas_matches p (req vbr)))"
  proof (cases "outsideRange (config p) (MCRequest.Key (req vbr))")
    case True
    then have "res = Some (MCResponse_zero\<lparr>Status := NOT_MY_RANGE\<rparr>)"
      using assms by (simp add: vbSet_def Let_def checkRange_outside)
    then show ?thesis using True by (simp add: set_succeeded_def Status_defs)
  next
    case False
    then show ?thesis using assms
      by (auto simp: vbSet_def Let_def checkRange_inside_stats set_succeeded_def
          cas_matches_def stored_def MCResponse_zero_def Status_defs split: option.splits if_splits)
  qed
  show "set_succeeded res \<Longrightarrow>
           m = Some \<lparr>vb = vbid p, mkey = MCRequest.Key (req vbr), mcas = vbucket.cas p,
                      deleted = False\<rparr> \<and>
           vbucket.cas p' = vbucket.cas p + 1 \<and>
           changes p' = Upsert (changes p)
             \<lparr>item.key = MCRequest.Key (req vbr), exp = 0, flag = 0,
              item.cas = vbucket.cas p, data = MCRequest.Body (req vbr)\<rparr>"
    using assms
    by (auto simp: vbSet_def Let_def checkRange_def set_succeeded_def MCResponse_zero_def
        Status_defs split: option.splits if_splits prod.splits)
  show "\<not> set_succeeded res \<Longrightarrow> m = None \<and> kept p p'"
    using assms
    by (auto simp: vbSet_def Let_def checkRange_def set_succeeded_def kept_def
        MCResponse_zero_def Status_defs split: option.splits if_splits prod.splits)
qed

text \<open>The same for a delete, which also needs the key to be stored, and writes a tombstone.\<close>

lemma vbDelete_success:
  assumes "vbDelete p vbr = (res, m, p')"
  shows "delete_succeeded res =
           (\<not> outsideRange (config p) (MCRequest.Key (req vbr)) \<and>
            stored p (MCRequest.Key (req vbr)) \<noteq> None \<and>
            (MCRequest.Cas (req vbr) = 0 \<or> cas_matches p (req vbr)))"
    and "delete_succeeded res \<Longrightarrow>
           m = Some \<lparr>vb = vbid p, mkey = MCRequest.Key (req vbr), mcas = vbucket.cas p,
                      deleted = True\<rparr> \<and>
           vbucket.cas p' = vbucket.cas p + 1 \<and>
           changes p' = Upsert (changes p)
             \<lparr>item.key = MCRequest.Key (req vbr), exp = 0, flag = 0,
              item.cas = vbucket.cas p, data = None\<rparr>"
    and "\<not> delete_succeeded res \<Longrightarrow> m = None \<and> kept p p'"
proof -
  show "delete_succeeded res =
           (\<not> outsideRange (config p) (MCRequest.Key (req vbr)) \<and>
            stored p (MCRequest.Key (req vbr)) \<noteq> None \<and>
            (MCRequest.Cas (req vbr) = 0 \<or> cas_matches p (req vbr)))"
  proof (cases "outsideRange (config p) (MCRequest.Key (req vbr))")
    case True
    then have "res = Some (MCResponse_zero\<lparr>Status := NOT_MY_RANGE\<rparr>)"
      using assms by (simp add: vbDelete_def Let_def checkRange_outside)
    then show ?thesis using True by (simp add: delete_succeeded_def Status_defs)
  next
    case False
    then show ?thesis using assms
      by (auto simp: vbDelete_def Let_def checkRange_inside_stats delete_succeeded_def
          cas_matches_def stored_def MCResponse_zero_def Status_defs
          split: option.splits if_splits)
  qed
  show "delete_succeeded res \<Longrightarrow>
           m = Some \<lparr>vb = vbid p, mkey = MCRequest.Key (req vbr), mcas = vbucket.cas p,
                      deleted = True\<rparr> \<and>
           vbucket.cas p' = vbucket.cas p + 1 \<and>
           changes p' = Upsert (changes p)
             \<lparr>item.key = MCRequest.Key (req vbr), exp = 0, flag = 0,
              item.cas = vbucket.cas p, data = None\<rparr>"
    using assms
    by (auto simp: vbDelete_def Let_def checkRange_def delete_succeeded_def MCResponse_zero_def
        Status_defs split: option.splits if_splits prod.splits)
  show "\<not> delete_succeeded res \<Longrightarrow> m = None \<and> kept p p'"
    using assms
    by (auto simp: vbDelete_def Let_def checkRange_def delete_succeeded_def kept_def
        MCResponse_zero_def Status_defs split: option.splits if_splits prod.splits)
qed

lemma set_a_thrice_mcas:
  "map mcas (mutations (fst (execs (newVBucket 0) set_a_thrice))) = [0, 1, 2]"
  by (simp add: set_a_thrice_def handler_defs SET_def Let_def mutations_def)

lemma set_set_delete_eval:
  "map mcas (mutations (fst (execs (newVBucket 0) set_set_delete))) = [0, 1, 2]"
  "map deleted (mutations (fst (execs (newVBucket 0) set_set_delete))) = [False, False, True]"
  by (simp_all add: set_set_delete_def handler_defs SET_def DELETE_def Let_def mutations_def)

text \<open>
  Claim C3, amended. A set or delete succeeds exactly under its conditions (key within the
  range, for a delete the key stored, request cas 0 or matching). Every set or delete
  that succeeds broadcasts a mutation with the value the cas counter had before the
  operation, writes a record with that CAS and the request key into the changes tree (the
  value for a set, a tombstone for a delete), and leaves the counter one higher; one that
  fails broadcasts nothing and leaves trees and counter as they were. So in a run of get,
  set and delete commands on a partition, with no split into the partition in between and
  below the wrap-around of the 64-bit counter (the counter's value plus the number of
  commands is below \<open>2^64\<close>), of two mutations the earlier has the strictly smaller CAS.
\<close>

theorem cas_assignment:
  assumes "execs v cmds = (out, v')"
    and "unat (vbucket.cas v) + length cmds < 2 ^ 64"
  shows "(case vbSet p vbr of (res, m, p') \<Rightarrow>
            set_succeeded res =
              (\<not> outsideRange (config p) (MCRequest.Key (req vbr)) \<and>
               (MCRequest.Cas (req vbr) = 0 \<or> cas_matches p (req vbr))) \<and>
            (if set_succeeded res
             then m = Some \<lparr>vb = vbid p, mkey = MCRequest.Key (req vbr),
                             mcas = vbucket.cas p, deleted = False\<rparr> \<and>
                  vbucket.cas p' = vbucket.cas p + 1 \<and>
                  \<lparr>item.key = MCRequest.Key (req vbr), exp = 0, flag = 0,
                   item.cas = vbucket.cas p, data = MCRequest.Body (req vbr)\<rparr>
                    \<in> set (contents (changes p'))
             else m = None \<and> kept p p')) \<and>
         (case vbDelete p vbr of (res, m, p') \<Rightarrow>
            delete_succeeded res =
              (\<not> outsideRange (config p) (MCRequest.Key (req vbr)) \<and>
               stored p (MCRequest.Key (req vbr)) \<noteq> None \<and>
               (MCRequest.Cas (req vbr) = 0 \<or> cas_matches p (req vbr))) \<and>
            (if delete_succeeded res
             then m = Some \<lparr>vb = vbid p, mkey = MCRequest.Key (req vbr),
                             mcas = vbucket.cas p, deleted = True\<rparr> \<and>
                  vbucket.cas p' = vbucket.cas p + 1 \<and>
                  \<lparr>item.key = MCRequest.Key (req vbr), exp = 0, flag = 0,
                   item.cas = vbucket.cas p, data = None\<rparr>
                    \<in> set (contents (changes p'))
             else m = None \<and> kept p p')) \<and>
         sorted_wrt (\<lambda>m1 m2. mcas m1 < mcas m2) (mutations out)"
proof -
  obtain rs ms ps where s: "vbSet p vbr = (rs, ms, ps)" by (cases "vbSet p vbr") auto
  obtain rd md pd where d: "vbDelete p vbr = (rd, md, pd)" by (cases "vbDelete p vbr") auto
  have sp: "(if set_succeeded rs
             then ms = Some \<lparr>vb = vbid p, mkey = MCRequest.Key (req vbr),
                             mcas = vbucket.cas p, deleted = False\<rparr> \<and>
                  vbucket.cas ps = vbucket.cas p + 1 \<and>
                  \<lparr>item.key = MCRequest.Key (req vbr), exp = 0, flag = 0,
                   item.cas = vbucket.cas p, data = MCRequest.Body (req vbr)\<rparr>
                    \<in> set (contents (changes ps))
             else ms = None \<and> kept p ps)"
    using vbSet_success(2,3) [OF s] by (auto simp: Upsert_def upsert_list_mem)
  have dp: "(if delete_succeeded rd
             then md = Some \<lparr>vb = vbid p, mkey = MCRequest.Key (req vbr),
                             mcas = vbucket.cas p, deleted = True\<rparr> \<and>
                  vbucket.cas pd = vbucket.cas p + 1 \<and>
                  \<lparr>item.key = MCRequest.Key (req vbr), exp = 0, flag = 0,
                   item.cas = vbucket.cas p, data = None\<rparr>
                    \<in> set (contents (changes pd))
             else md = None \<and> kept p pd)"
    using vbDelete_success(2,3) [OF d] by (auto simp: Upsert_def upsert_list_mem)
  have m: "map mcas (mutations out) =
             map (\<lambda>i. vbucket.cas v + of_nat i) [0..<length (mutations out)]"
    and l: "length (mutations out) \<le> length cmds"
    using execs_mcas [OF assms(1)] by auto
  have "sorted_wrt (<) (map mcas (mutations out))"
    unfolding m using assms(2) l by (intro sorted_shift) simp
  then have srt: "sorted_wrt (\<lambda>m1 m2. mcas m1 < mcas m2) (mutations out)"
    by (simp add: sorted_wrt_map)
  show ?thesis
    using vbSet_success(1) [OF s] vbDelete_success(1) [OF d] sp dp srt
    by (simp add: s d)
qed

text \<open>
  Two sets and a delete on a fresh partition are assigned the CAS values 0, 1 and 2. On the
  partition \<open>two_keys\<close>, whose counter is 2, a delete of \<open>a\<close> succeeds, broadcasts CAS 2,
  leaves the counter at 3 and the tombstone of \<open>a\<close> at cas 2 in the changes tree.
\<close>

theorem cas_assignment_witness:
  "unat (vbucket.cas (newVBucket 0)) + length set_set_delete < 2 ^ 64 \<and>
   map mcas (mutations (fst (execs (newVBucket 0) set_set_delete))) = [0, 1, 2] \<and>
   map deleted (mutations (fst (execs (newVBucket 0) set_set_delete))) = [False, False, True] \<and>
   sorted_wrt (\<lambda>m1 m2. mcas m1 < mcas m2)
     (mutations (fst (execs (newVBucket 0) set_set_delete))) \<and>
   vbucket.cas two_keys = 2 \<and>
   delete_succeeded (fst (vbDelete two_keys (request DELETE [0x61] None 0))) \<and>
   fst (snd (vbDelete two_keys (request DELETE [0x61] None 0))) =
     Some \<lparr>vb = 0, mkey = [0x61], mcas = 2, deleted = True\<rparr> \<and>
   vbucket.cas (snd (snd (vbDelete two_keys (request DELETE [0x61] None 0)))) = 3 \<and>
   \<lparr>item.key = [0x61], exp = 0, flag = 0, item.cas = 2, data = None\<rparr>
     \<in> set (contents (changes (snd (snd (vbDelete two_keys (request DELETE [0x61] None 0))))))"
proof -
  let ?r = "request DELETE [0x61] None 0"
  have e: "execs (newVBucket 0) set_set_delete =
             (fst (execs (newVBucket 0) set_set_delete),
              snd (execs (newVBucket 0) set_set_delete))"
    by simp
  have b: "unat (vbucket.cas (newVBucket 0)) + length set_set_delete < 2 ^ 64"
    by (simp add: newVBucket_def set_set_delete_def)
  obtain rd md pd where d: "vbDelete two_keys ?r = (rd, md, pd)"
    by (cases "vbDelete two_keys ?r") auto
  have pre: "\<not> outsideRange (config two_keys) (MCRequest.Key (req ?r))"
    "stored two_keys (MCRequest.Key (req ?r)) \<noteq> None"
    "MCRequest.Cas (req ?r) = 0"
    by (simp_all add: outsideRange_def stored_def two_keys_eval Get_def KeyLess_def
        item_zero_def request_def)
  have k: "MCRequest.Key (req ?r) = [0x61]" "vbid two_keys = 0"
    by (simp_all add: request_def two_keys_def handler_defs SET_def Let_def)
  note t = cas_assignment [OF e b, of two_keys ?r]
  have ok: "delete_succeeded rd"
    using t d pre by simp
  then have "md = Some \<lparr>vb = 0, mkey = [0x61], mcas = 2, deleted = True\<rparr>"
    and "vbucket.cas pd = 3"
    and "\<lparr>item.key = [0x61], exp = 0, flag = 0, item.cas = 2, data = None\<rparr>
           \<in> set (contents (changes pd))"
    using t d k two_keys_eval(4) by simp_all
  moreover have "sorted_wrt (\<lambda>m1 m2. mcas m1 < mcas m2)
     (mutations (fst (execs (newVBucket 0) set_set_delete)))"
    using t by simp
  ultimately show ?thesis
    using b ok d set_set_delete_eval two_keys_eval(4) by simp
qed

section \<open>The change log\<close>

lemma Upsert_at_end:
  assumes "compare t = CASLess" and "\<forall>i\<in>set (contents t). item.cas i < item.cas x"
  shows "contents (Upsert t x) = contents t @ [x]" and "compare (Upsert t x) = CASLess"
proof -
  have "0 < CASLess x y" if "y \<in> set (contents t)" for y
  proof -
    from that assms(2) have "item.cas y < item.cas x" by blast
    then show ?thesis by (auto simp: CASLess_def)
  qed
  then show "contents (Upsert t x) = contents t @ [x]"
    using assms(1) by (simp add: Upsert_def upsert_list_append)
  show "compare (Upsert t x) = CASLess"
    using assms(1) by (simp add: Upsert_def)
qed

text \<open>
  A run only appends to the changes tree: every record that was there stays, and one
  record is added per mutation, in the order of the mutations.
\<close>

lemma execs_changes:
  assumes "execs v cmds = (out, v')"
    and "compare (changes v) = CASLess"
    and "\<forall>i\<in>set (contents (changes v)). item.cas i < vbucket.cas v"
    and "unat (vbucket.cas v) + length cmds < 2 ^ 64"
  shows "\<exists>recs. contents (changes v') = contents (changes v) @ recs \<and>
           map (\<lambda>i. (item.key i, item.cas i)) recs =
             map (\<lambda>m. (mkey m, mcas m)) (mutations out)"
  using assms
proof (induction cmds arbitrary: v out)
  case Nil
  then show ?case by (simp add: mutations_Nil)
next
  case (Cons c cs)
  obtain res m v1 where e: "exec v c = (res, m, v1)" by (cases "exec v c") auto
  obtain out1 where r: "execs v1 cs = (out1, v')" and o: "out = (res, m) # out1"
    using Cons.prems(1) e by (auto split: prod.splits)
  show ?case
  proof (cases m)
    case None
    then have same: "changes v1 = changes v" "vbucket.cas v1 = vbucket.cas v"
      using exec_step [OF e] by auto
    have "\<exists>recs. contents (changes v') = contents (changes v1) @ recs \<and>
           map (\<lambda>i. (item.key i, item.cas i)) recs =
             map (\<lambda>m. (mkey m, mcas m)) (mutations out1)"
      using Cons.prems same by (intro Cons.IH [OF r]) auto
    then show ?thesis using same o None by (simp add: mutations_Cons)
  next
    case (Some mu)
    then obtain d where mc: "mcas mu = vbucket.cas v"
      and c1: "vbucket.cas v1 = vbucket.cas v + 1"
      and ch: "changes v1 = Upsert (changes v)
                 \<lparr>item.key = mkey mu, exp = 0, flag = 0, item.cas = vbucket.cas v, data = d\<rparr>"
      using exec_step [OF e] by auto
    let ?rec = "\<lparr>item.key = mkey mu, exp = 0, flag = 0, item.cas = vbucket.cas v, data = d\<rparr>"
    have up: "contents (changes v1) = contents (changes v) @ [?rec]"
      "compare (changes v1) = CASLess"
      using Upsert_at_end [of "changes v" ?rec] Cons.prems(2,3) ch by auto
    have small: "unat (vbucket.cas v) + 1 < 2 ^ 64"
      using Cons.prems(4) by simp
    have lt: "vbucket.cas v < vbucket.cas v + 1"
      using small by (rule word_less_succ(1))
    have inv: "\<forall>i\<in>set (contents (changes v1)). item.cas i < vbucket.cas v1"
      using Cons.prems(3) lt up c1 by (auto intro: less_trans)
    have bound: "unat (vbucket.cas v1) + length cs < 2 ^ 64"
    proof -
      have "unat (vbucket.cas v + 1) = unat (vbucket.cas v) + 1"
        using small by (rule word_less_succ(2))
      then show ?thesis using Cons.prems(4) c1 by simp
    qed
    obtain recs where "contents (changes v') = contents (changes v1) @ recs"
      and "map (\<lambda>i. (item.key i, item.cas i)) recs =
             map (\<lambda>m. (mkey m, mcas m)) (mutations out1)"
      using Cons.IH [OF r up(2) inv bound] by auto
    then show ?thesis using up o Some mc
      by (intro exI [of _ "?rec # recs"]) (simp add: mutations_Cons)
  qed
qed

text \<open>The trees of a partition keep their comparison functions.\<close>

lemma exec_compare:
  assumes "exec v c = (res, m, v1)"
  shows "compare (items v1) = compare (items v) \<and> compare (changes v1) = compare (changes v)"
proof (cases c)
  case (CmdGet vbr)
  then show ?thesis using assms
    by (auto simp: vbGet_def Let_def checkRange_def split: option.splits if_splits prod.splits)
next
  case (CmdSet vbr)
  then show ?thesis using assms
    by (auto simp: vbSet_def Let_def checkRange_def Upsert_def
        split: option.splits if_splits prod.splits)
next
  case (CmdDelete vbr)
  then show ?thesis using assms
    by (auto simp: vbDelete_def Let_def checkRange_def Upsert_def Delete_def
        split: option.splits if_splits prod.splits)
qed

lemma execs_compare:
  "execs v cmds = (out, v') \<Longrightarrow>
     compare (items v') = compare (items v) \<and> compare (changes v') = compare (changes v)"
proof (induction cmds arbitrary: v out)
  case Nil
  then show ?case by simp
next
  case (Cons c cs)
  obtain res m v1 where e: "exec v c = (res, m, v1)" by (cases "exec v c") auto
  obtain out1 where r: "execs v1 cs = (out1, v')"
    using Cons.prems e by (auto split: prod.splits)
  show ?case using Cons.IH [OF r] exec_compare [OF e] by simp
qed

text \<open>
  The changes tree of a partition that started empty is in ascending order of CAS, as
  long as the counter has not wrapped around.
\<close>

lemma execs_changes_sorted:
  assumes "execs v cmds = (out, v')"
    and "changes v = NewTreap CASLess"
    and "unat (vbucket.cas v) + length cmds < 2 ^ 64"
  shows "sorted_wrt (\<lambda>a b. item.cas a < item.cas b) (contents (changes v')) \<and>
         compare (changes v') = CASLess"
proof -
  have c: "compare (changes v) = CASLess" and e: "contents (changes v) = []"
    using assms(2) by (simp_all add: NewTreap_def)
  have "map (\<lambda>i. (item.key i, item.cas i)) (contents (changes v')) =
          map (\<lambda>m. (mkey m, mcas m)) (mutations out)"
    using execs_changes [OF assms(1) c] e assms(3) by auto
  then have "map snd (map (\<lambda>i. (item.key i, item.cas i)) (contents (changes v'))) =
          map snd (map (\<lambda>m. (mkey m, mcas m)) (mutations out))"
    by simp
  then have m: "map item.cas (contents (changes v')) = map mcas (mutations out)"
    by (simp add: comp_def)
  have "map mcas (mutations out) =
          map (\<lambda>i. vbucket.cas v + of_nat i) [0..<length (mutations out)]"
    and "length (mutations out) \<le> length cmds"
    using execs_mcas [OF assms(1)] by auto
  then have "sorted_wrt (<) (map mcas (mutations out))"
    using assms(3) sorted_shift [of "vbucket.cas v" "length (mutations out)"] by simp
  then have "sorted_wrt (<) (map item.cas (contents (changes v')))"
    by (simp add: m)
  then show ?thesis
    using execs_compare [OF assms(1)] c by (simp add: sorted_wrt_map)
qed



section \<open>Streaming the change log\<close>

lemma visit_changesSince:
  assumes "\<forall>pkt. wr pkt"
  shows "visit (changesSince_visitor r wr) xs (sent, False) =
           (sent @ map (\<lambda>i. MCResponse_zero\<lparr>MCResponse.Opcode := MCRequest.Opcode r,
                               MCResponse.Key := item.key i, MCResponse.Cas := item.cas i\<rparr>)
                     (filter (\<lambda>i. MCRequest.Cas r < item.cas i) xs),
            False)"
  using assms
  by (induction xs arbitrary: sent)
     (auto simp: changesSince_visitor_def transmitPackets_def Let_def)

text \<open>The visit starts at the pivot, and the visitor passes over the pivot's own CAS.\<close>

lemma filter_above_pivot:
  "filter (\<lambda>x. CASLess (item_zero\<lparr>item.cas := c\<rparr>) x \<le> 0 \<and> c < item.cas x) xs =
   filter (\<lambda>i. c < item.cas i) xs"
  by (induction xs) (auto simp: CASLess_def item_zero_def)

text \<open>
  Claim C5. On a connection whose writes succeed, \<open>changesSince(c)\<close> writes one packet
  per record of the changes tree whose CAS is strictly greater than \<open>c\<close>, with the key and
  the CAS of the record, in ascending order of CAS (the changes tree is ordered by CAS),
  and ends with a response that has no key.
\<close>

theorem changes_since_stream:
  assumes "w vbr = Some wr" and "\<forall>pkt. wr pkt"
    and "compare (changes v) = CASLess"
    and "sorted_wrt (\<lambda>a b. item.cas a < item.cas b) (contents (changes v))"
  shows "\<exists>sent res. vbChangesSince v vbr = Some (sent, res) \<and>
           map (\<lambda>p. (MCResponse.Key p, MCResponse.Cas p)) sent =
             map (\<lambda>i. (item.key i, item.cas i))
               (filter (\<lambda>i. MCRequest.Cas (req vbr) < item.cas i) (contents (changes v))) \<and>
           sorted_wrt (<) (map MCResponse.Cas sent) \<and>
           res = MCResponse_zero\<lparr>MCResponse.Opcode := MCRequest.Opcode (req vbr),
                   MCResponse.Cas := MCRequest.Cas (req vbr)\<rparr> \<and>
           MCResponse.Key res = []"
proof -
  let ?c = "MCRequest.Cas (req vbr)"
  let ?recs = "filter (\<lambda>i. ?c < item.cas i) (contents (changes v))"
  let ?pkt = "\<lambda>i. MCResponse_zero\<lparr>MCResponse.Opcode := MCRequest.Opcode (req vbr),
                  MCResponse.Key := item.key i, MCResponse.Cas := item.cas i\<rparr>"
  have run: "vbChangesSince v vbr =
      Some (map ?pkt ?recs,
            MCResponse_zero\<lparr>MCResponse.Opcode := MCRequest.Opcode (req vbr),
              MCResponse.Cas := ?c\<rparr>)"
    using assms(1,3)
    by (simp add: vbChangesSince_def Let_def VisitAscend_def visit_changesSince [OF assms(2)]
        filter_above_pivot)
  have "sorted_wrt (\<lambda>a b. item.cas a < item.cas b) ?recs"
    using assms(4) by (rule sorted_wrt_filter)
  then have srt: "sorted_wrt (<) (map MCResponse.Cas (map ?pkt ?recs))"
    by (simp add: sorted_wrt_map)
  have kc: "map (\<lambda>p. (MCResponse.Key p, MCResponse.Cas p)) (map ?pkt ?recs) =
           map (\<lambda>i. (item.key i, item.cas i)) ?recs"
    by simp
  show ?thesis
    using run srt kc by (simp add: MCResponse_zero_def)
qed

lemma a_thrice_changes:
  "contents (changes a_thrice) =
     [\<lparr>item.key = [0x61], exp = 0, flag = 0, item.cas = 0, data = Some [0x31]\<rparr>,
      \<lparr>item.key = [0x61], exp = 0, flag = 0, item.cas = 1, data = Some [0x32]\<rparr>,
      \<lparr>item.key = [0x61], exp = 0, flag = 0, item.cas = 2, data = Some [0x39]\<rparr>]"
  "compare (changes a_thrice) = CASLess"
  by (simp_all add: a_thrice_def set_a_thrice_def handler_defs SET_def Let_def)

text \<open>
  After the three sets of \<open>a\<close>, \<open>changesSince(0)\<close> writes the records at cas 1 and cas 2 and
  ends with a response without a key.
\<close>

theorem changes_since_stream_witness:
  "w (request CHANGES_SINCE [] None 0) = Some client \<and>
   (\<forall>pkt. client pkt) \<and>
   compare (changes a_thrice) = CASLess \<and>
   sorted_wrt (\<lambda>a b. item.cas a < item.cas b) (contents (changes a_thrice)) \<and>
   map_option
     (\<lambda>(sent, res). (map (\<lambda>p. (MCResponse.Key p, MCResponse.Cas p)) sent, MCResponse.Key res))
     (vbChangesSince a_thrice (request CHANGES_SINCE [] None 0)) =
     Some ([([0x61], 1), ([0x61], 2)], [])"
proof -
  have h1: "w (request CHANGES_SINCE [] None 0) = Some client"
    by (simp add: request_def)
  have h2: "\<forall>pkt. client pkt"
    by (simp add: client_def)
  have h3: "compare (changes a_thrice) = CASLess"
    by (rule a_thrice_changes(2))
  have h4: "sorted_wrt (\<lambda>a b. item.cas a < item.cas b) (contents (changes a_thrice))"
    by (simp add: a_thrice_changes(1))
  show ?thesis
    using changes_since_stream [OF h1 h2 h3 h4] h1 h2 h3 h4
    by (auto simp: a_thrice_changes(1) request_def)
qed

section \<open>Range get\<close>

lemma bytes_Compare_flip: "0 \<le> bytes_Compare a b \<Longrightarrow> bytes_Compare b a \<le> 0"
  by (induction a b rule: bytes_Compare.induct) (auto split: if_splits)

lemma visit_rget:
  assumes "\<forall>pkt. wr pkt"
  shows "visit (rget_visitor r wr) xs (sent, res, n, b) =
           (sent @ map (\<lambda>i. MCResponse_zero\<lparr>MCResponse.Opcode := MCRequest.Opcode r,
                               MCResponse.Key := item.key i, MCResponse.Cas := item.cas i,
                               MCResponse.Body := data i\<rparr>)
                     (filter (\<lambda>i. 0 \<le> bytes_Compare (item.key i) (MCRequest.Key r)) xs),
            res,
            n + of_nat (length
                  (filter (\<lambda>i. 0 \<le> bytes_Compare (item.key i) (MCRequest.Key r)) xs)),
            b + (\<Sum>i\<leftarrow>filter (\<lambda>i. 0 \<le> bytes_Compare (item.key i) (MCRequest.Key r)) xs.
                    of_nat (len (data i))))"
  using assms
  by (induction xs arbitrary: sent n b) (auto simp: rget_visitor_def Let_def algebra_simps)

lemma filter_from_start:
  "filter (\<lambda>x. KeyLess (item_zero\<lparr>item.key := k\<rparr>) x \<le> 0 \<and>
                0 \<le> bytes_Compare (item.key x) k) xs =
   filter (\<lambda>i. 0 \<le> bytes_Compare (item.key i) k) xs"
  by (induction xs) (auto simp: KeyLess_def item_zero_def dest: bytes_Compare_flip)

text \<open>Whatever the writer does, every packet and the response of the visit have status \<open>SUCCESS\<close>.\<close>

lemma visit_rget_status:
  assumes "visit (rget_visitor r wr) xs (sent, res, n, b) = (sent', res', n', b')"
    and "Status res = SUCCESS" and "\<forall>p\<in>set sent. Status p = SUCCESS"
  shows "Status res' = SUCCESS \<and> (\<forall>p\<in>set sent'. Status p = SUCCESS)"
  using assms
  by (induction xs arbitrary: sent res n b)
     (auto simp: rget_visitor_def Let_def MCResponse_zero_def split: if_splits)

text \<open>
  Claim C9. \<open>vbRGet\<close> does not look at the range config. On a connection whose writes
  succeed it writes every stored item whose key is not below the start key of the request,
  with its key, CAS and value, whatever the configured range is, and answers with status
  \<open>SUCCESS\<close>. On any connection, neither a packet nor the response has status
  \<open>NOT_MY_RANGE\<close>, and the counter \<open>ErrNotMyRange\<close> is left as it was.
\<close>

theorem rget_no_range_check:
  "(w vbr = Some wr \<and> (\<forall>pkt. wr pkt) \<and> compare (items v) = KeyLess \<longrightarrow>
      (\<exists>sent res v'. vbRGet v vbr = Some (sent, res, v') \<and>
         map (\<lambda>p. (MCResponse.Key p, MCResponse.Cas p, MCResponse.Body p)) sent =
           map (\<lambda>i. (item.key i, item.cas i, data i))
             (filter (\<lambda>i. 0 \<le> bytes_Compare (item.key i) (MCRequest.Key (req vbr)))
                (contents (items v))) \<and>
         Status res = SUCCESS \<and> \<not> Fatal res)) \<and>
   (\<forall>sent res v'. vbRGet v vbr = Some (sent, res, v') \<longrightarrow>
      Status res \<noteq> NOT_MY_RANGE \<and> (\<forall>p\<in>set sent. Status p \<noteq> NOT_MY_RANGE) \<and>
      ErrNotMyRange (stats v') = ErrNotMyRange (stats v))"
proof (intro conjI impI allI)
  assume a: "w vbr = Some wr \<and> (\<forall>pkt. wr pkt) \<and> compare (items v) = KeyLess"
  then have ok: "\<forall>pkt. wr pkt" by simp
  let ?recs = "filter (\<lambda>i. 0 \<le> bytes_Compare (item.key i) (MCRequest.Key (req vbr)))
                 (contents (items v))"
  let ?pkt = "\<lambda>i. MCResponse_zero\<lparr>MCResponse.Opcode := MCRequest.Opcode (req vbr),
                  MCResponse.Key := item.key i, MCResponse.Cas := item.cas i,
                  MCResponse.Body := data i\<rparr>"
  have "\<exists>v'. vbRGet v vbr =
          Some (map ?pkt ?recs,
                MCResponse_zero\<lparr>MCResponse.Opcode := MCRequest.Opcode (req vbr),
                  MCResponse.Cas := MCRequest.Cas (req vbr)\<rparr>, v')"
    using a
    by (simp add: vbRGet_def Let_def VisitAscend_def visit_rget [OF ok] filter_from_start)
  then obtain v' where run: "vbRGet v vbr =
          Some (map ?pkt ?recs,
                MCResponse_zero\<lparr>MCResponse.Opcode := MCRequest.Opcode (req vbr),
                  MCResponse.Cas := MCRequest.Cas (req vbr)\<rparr>, v')"
    by blast
  have kc: "map (\<lambda>p. (MCResponse.Key p, MCResponse.Cas p, MCResponse.Body p)) (map ?pkt ?recs) =
            map (\<lambda>i. (item.key i, item.cas i, data i)) ?recs"
    by simp
  show "\<exists>sent res v'. vbRGet v vbr = Some (sent, res, v') \<and>
         map (\<lambda>p. (MCResponse.Key p, MCResponse.Cas p, MCResponse.Body p)) sent =
           map (\<lambda>i. (item.key i, item.cas i, data i)) ?recs \<and>
         Status res = SUCCESS \<and> \<not> Fatal res"
    using run kc by (simp add: MCResponse_zero_def)
next
  fix sent res v'
  assume run: "vbRGet v vbr = Some (sent, res, v')"
  let ?wr = "case w vbr of Some wr' \<Rightarrow> wr' | None \<Rightarrow> (\<lambda>pkt. False)"
  let ?v1 = "v\<lparr>stats := (stats v)\<lparr>RGets := RGets (stats v) + 1\<rparr>\<rparr>"
  let ?res0 = "MCResponse_zero\<lparr>MCResponse.Opcode := MCRequest.Opcode (req vbr),
                 MCResponse.Cas := MCRequest.Cas (req vbr)\<rparr>"
  obtain s r n b where vis:
    "visit (rget_visitor (req vbr) ?wr)
       (filter (\<lambda>x. compare (items ?v1) (item_zero\<lparr>item.key := MCRequest.Key (req vbr)\<rparr>) x \<le> 0)
          (contents (items ?v1)))
       ([], ?res0, 0, 0) = (s, r, n, b)"
    using prod_cases4 by blast
  have eq: "sent = s" "res = r"
    and st: "ErrNotMyRange (stats v') = ErrNotMyRange (stats v)"
    using run vis by (auto simp: vbRGet_def Let_def VisitAscend_def split: if_splits)
  have "Status r = SUCCESS \<and> (\<forall>p\<in>set s. Status p = SUCCESS)"
    using vis by (rule visit_rget_status) (simp_all add: MCResponse_zero_def)
  then show "Status res \<noteq> NOT_MY_RANGE" and "\<forall>p\<in>set sent. Status p \<noteq> NOT_MY_RANGE"
    using eq by (simp_all add: Status_defs)
  show "ErrNotMyRange (stats v') = ErrNotMyRange (stats v)" by (rule st)
qed

text \<open>
  The partition \<open>narrowed\<close> has a range that starts at \<open>m\<close> and holds the keys \<open>a\<close> and \<open>b\<close>,
  both outside of it. A range get from \<open>a\<close> writes both.
\<close>

theorem rget_no_range_check_witness:
  "w (request RGET [0x61] None 0) = Some client \<and>
   (\<forall>pkt. client pkt) \<and>
   compare (items narrowed) = KeyLess \<and>
   outsideRange (config narrowed) [0x61] \<and>
   outsideRange (config narrowed) [0x62] \<and>
   map_option (\<lambda>(sent, res, v'). (map MCResponse.Key sent, Status res))
     (vbRGet narrowed (request RGET [0x61] None 0)) = Some ([[0x61], [0x62]], SUCCESS)"
proof -
  have h: "w (request RGET [0x61] None 0) = Some client \<and> (\<forall>pkt. client pkt) \<and>
           compare (items narrowed) = KeyLess"
    by (simp add: request_def client_def narrowed_eval two_keys_eval)
  have o: "outsideRange (config narrowed) [0x61]" "outsideRange (config narrowed) [0x62]"
    by (simp_all add: outsideRange_def narrowed_eval)
  have k: "MCRequest.Key (req (request RGET [0x61] None 0)) = [0x61]"
    by (simp add: request_def)
  obtain sent res v' where run: "vbRGet narrowed (request RGET [0x61] None 0) = Some (sent, res, v')"
    and m: "map (\<lambda>p. (MCResponse.Key p, MCResponse.Cas p, MCResponse.Body p)) sent =
           map (\<lambda>i. (item.key i, item.cas i, data i))
             (filter (\<lambda>i. 0 \<le> bytes_Compare (item.key i) [0x61]) (contents (items narrowed)))"
    and s: "Status res = SUCCESS"
    using rget_no_range_check [of "request RGET [0x61] None 0" client narrowed] h k by auto
  have "map fst (map (\<lambda>p. (MCResponse.Key p, MCResponse.Cas p, MCResponse.Body p)) sent) =
          [[0x61], [0x62]]"
    unfolding m by (simp add: narrowed_eval two_keys_eval)
  then have "map MCResponse.Key sent = [[0x61], [0x62]]"
    by (simp add: comp_def)
  then show ?thesis using h o run s by simp
qed

section \<open>Splitting a range\<close>

text \<open>The visitor of \<open>treeRangeCopy\<close> never changes its \<open>dst\<close>, so the copy is \<open>dst\<close> itself.\<close>

lemma treeRangeCopy_visitor_dst:
  "treeRangeCopy_visitor minKeyInclusive maxKeyExclusive dst i = (True, dst)"
  by (simp add: treeRangeCopy_visitor_def Let_def)

lemma treeRangeCopy_dst:
  "treeRangeCopy src dst minItem minKeyInclusive maxKeyExclusive = dst"
proof -
  have "visit (treeRangeCopy_visitor minKeyInclusive maxKeyExclusive) xs dst = dst" for xs
    by (induction xs) (simp_all add: treeRangeCopy_visitor_dst)
  then show ?thesis
    by (simp add: treeRangeCopy_def VisitAscend_def split: option.splits)
qed

lemma EINVAL_neq_SUCCESS: "EINVAL \<noteq> SUCCESS"
  by (simp add: Status_defs)

text \<open>What a successful \<open>transferSplits\<close> has done at its first split.\<close>

lemma transferSplits_Cons_success:
  assumes "transferSplits v (split # rest) held b = Some (res, b')"
    and "Status res = SUCCESS"
  shows "(word_of_int (VBucketId split) :: 16 word) \<notin> set held \<and>
         (\<exists>b1 b2 vbLocked.
            transferSplits v rest (word_of_int (VBucketId split) # held) b1 = Some (res, b2) \<and>
            b' = b2(word_of_int (VBucketId split) \<mapsto>
                    rangeCopyTo v vbLocked (VBSplitRangePart.MinKeyInclusive split)
                      (VBSplitRangePart.MaxKeyExclusive split)))"
  using assms
  by (auto simp: Let_def EINVAL_neq_SUCCESS split: option.splits if_splits prod.splits)

text \<open>A split that succeeds has entered each destination once.\<close>

lemma transferSplits_held:
  assumes "transferSplits v splits held b = Some (res, b')" and "Status res = SUCCESS"
  shows "\<forall>s\<in>set splits. (word_of_int (VBucketId s) :: 16 word) \<notin> set held"
  using assms
proof (induction splits arbitrary: held b res b')
  case Nil
  then show ?case by simp
next
  case (Cons split rest)
  let ?id = "word_of_int (VBucketId split) :: 16 word"
  from transferSplits_Cons_success [OF Cons.prems] obtain b1 b2 where
    nh: "?id \<notin> set held" and r: "transferSplits v rest (?id # held) b1 = Some (res, b2)"
    by blast
  from Cons.IH [OF r Cons.prems(2)] nh show ?case by auto
qed

lemma transferSplits_success:
  assumes "transferSplits v splits held b = Some (res, b')" and "Status res = SUCCESS"
  shows "\<forall>s\<in>set splits. \<exists>d. b' (word_of_int (VBucketId s)) = Some d \<and>
           contents (items d) = [] \<and> contents (changes d) = [] \<and>
           vbucket.cas d = vbucket.cas v \<and> state d = state v \<and>
           config d = Some \<lparr>VBConfig.MinKeyInclusive = VBSplitRangePart.MinKeyInclusive s,
                             VBConfig.MaxKeyExclusive = VBSplitRangePart.MaxKeyExclusive s\<rparr>"
  using assms
proof (induction splits arbitrary: held b res b')
  case Nil
  then show ?case by simp
next
  case (Cons split rest)
  let ?id = "word_of_int (VBucketId split) :: 16 word"
  from transferSplits_Cons_success [OF Cons.prems] obtain b1 b2 vbLocked where
    r: "transferSplits v rest (?id # held) b1 = Some (res, b2)"
    and b': "b' = b2(?id \<mapsto> rangeCopyTo v vbLocked
                (VBSplitRangePart.MinKeyInclusive split) (VBSplitRangePart.MaxKeyExclusive split))"
    by blast
  have other: "\<forall>s\<in>set rest. (word_of_int (VBucketId s) :: 16 word) \<noteq> ?id"
    using transferSplits_held [OF r Cons.prems(2)] by auto
  have here: "\<exists>d. b' ?id = Some d \<and>
           contents (items d) = [] \<and> contents (changes d) = [] \<and>
           vbucket.cas d = vbucket.cas v \<and> state d = state v \<and>
           config d = Some \<lparr>VBConfig.MinKeyInclusive = VBSplitRangePart.MinKeyInclusive split,
                             VBConfig.MaxKeyExclusive = VBSplitRangePart.MaxKeyExclusive split\<rparr>"
    by (simp add: b' rangeCopyTo_def treeRangeCopy_dst NewTreap_def)
  show ?case using Cons.IH [OF r Cons.prems(2)] other here by (auto simp: b')
qed

lemma validateSplits_err:
  "validateSplits MAX_VBUCKET v max' splits = Some err \<Longrightarrow> Status err \<noteq> SUCCESS"
  by (induction splits arbitrary: max') (auto simp: EINVAL_neq_SUCCESS split: if_splits)

lemma splitRange_success_actual:
  assumes "splitRange MAX_VBUCKET b v sr = Some (res, v', b')" and "Status res = SUCCESS"
  shows "splitRangeActual b v (sort_key VBucketId (Splits sr)) = Some (res, v', b')"
proof (cases "length (Splits sr) < 1")
  case True
  then show ?thesis using assms by (auto simp: splitRange_def EINVAL_neq_SUCCESS)
next
  case False
  show ?thesis
  proof (cases "validateSplits MAX_VBUCKET v (-1) (sort_key VBucketId (Splits sr))")
    case None
    then show ?thesis using assms(1) False by (simp add: splitRange_def Let_def)
  next
    case (Some err)
    then have "res = err" using assms(1) False by (simp add: splitRange_def Let_def)
    then show ?thesis using validateSplits_err [OF Some] assms(2) by simp
  qed
qed

text \<open>
  Every split that succeeds: the source is left empty, dead and with an empty config;
  each destination has the cas counter and the state the source had, the range of its
  split as config, and empty trees.
\<close>

lemma splitRange_success:
  assumes "splitRange MAX_VBUCKET b v sr = Some (res, v', b')" and "Status res = SUCCESS"
  shows "contents (items v') = [] \<and> contents (changes v') = [] \<and> state v' = VBDead \<and>
         config v' = Some \<lparr>VBConfig.MinKeyInclusive = [], VBConfig.MaxKeyExclusive = []\<rparr> \<and>
         b' (vbid v) = Some v' \<and>
         (\<forall>s\<in>set (Splits sr). \<exists>d. b' (word_of_int (VBucketId s)) = Some d \<and>
            contents (items d) = [] \<and> contents (changes d) = [] \<and>
            vbucket.cas d = vbucket.cas v \<and> state d = state v \<and>
            config d = Some \<lparr>VBConfig.MinKeyInclusive = VBSplitRangePart.MinKeyInclusive s,
                              VBConfig.MaxKeyExclusive = VBSplitRangePart.MaxKeyExclusive s\<rparr>)"
proof -
  let ?splits = "sort_key VBucketId (Splits sr)"
  let ?v' = "v\<lparr>items := NewTreap KeyLess, changes := NewTreap CASLess, state := VBDead,
               config := Some \<lparr>VBConfig.MinKeyInclusive = [], VBConfig.MaxKeyExclusive = []\<rparr>\<rparr>"
  have a: "splitRangeActual b v ?splits = Some (res, v', b')"
    by (rule splitRange_success_actual [OF assms])
  then obtain r2 b2 where t: "transferSplits v ?splits [vbid v] b = Some (r2, b2)"
    by (cases "transferSplits v ?splits [vbid v] b") (auto simp: splitRangeActual_def)
  have r2: "r2 = res"
    using a t by (simp add: splitRangeActual_def Let_def split: if_splits)
  have ok: "Status r2 = SUCCESS"
    using r2 assms(2) by simp
  have v': "v' = ?v'" and b': "b' = b2(vbid v \<mapsto> ?v')"
    using a t ok by (auto simp: splitRangeActual_def Let_def)
  have nsrc: "\<forall>s\<in>set ?splits. (word_of_int (VBucketId s) :: 16 word) \<noteq> vbid v"
    using transferSplits_held [OF t ok] by auto
  have dst: "\<forall>s\<in>set ?splits. \<exists>d. b2 (word_of_int (VBucketId s)) = Some d \<and>
            contents (items d) = [] \<and> contents (changes d) = [] \<and>
            vbucket.cas d = vbucket.cas v \<and> state d = state v \<and>
            config d = Some \<lparr>VBConfig.MinKeyInclusive = VBSplitRangePart.MinKeyInclusive s,
                              VBConfig.MaxKeyExclusive = VBSplitRangePart.MaxKeyExclusive s\<rparr>"
    by (rule transferSplits_success [OF t ok])
  have src: "contents (items v') = [] \<and> contents (changes v') = [] \<and> state v' = VBDead \<and>
         config v' = Some \<lparr>VBConfig.MinKeyInclusive = [], VBConfig.MaxKeyExclusive = []\<rparr> \<and>
         b' (vbid v) = Some v'"
    by (simp add: v' b' NewTreap_def)
  have "\<exists>d. b' (word_of_int (VBucketId s)) = Some d \<and>
            contents (items d) = [] \<and> contents (changes d) = [] \<and>
            vbucket.cas d = vbucket.cas v \<and> state d = state v \<and>
            config d = Some \<lparr>VBConfig.MinKeyInclusive = VBSplitRangePart.MinKeyInclusive s,
                              VBConfig.MaxKeyExclusive = VBSplitRangePart.MaxKeyExclusive s\<rparr>"
    if "s \<in> set (Splits sr)" for s
  proof -
    from that have s: "s \<in> set ?splits" by simp
    then have "(word_of_int (VBucketId s) :: 16 word) \<noteq> vbid v" using nsrc by blast
    then have "b' (word_of_int (VBucketId s)) = b2 (word_of_int (VBucketId s))"
      by (simp add: b')
    then show ?thesis using dst s by simp
  qed
  then show ?thesis using src by blast
qed

lemma validateSplits_ok:
  assumes "validateSplits MAX_VBUCKET v max' splits = None"
  shows "(\<forall>s\<in>set splits. max' < VBucketId s \<and> 0 \<le> VBucketId s \<and> VBucketId s < MAX_VBUCKET \<and>
            (word_of_int (VBucketId s) :: 16 word) \<noteq> vbid v) \<and>
         sorted_wrt (\<lambda>s t. VBucketId s < VBucketId t) splits"
  using assms
proof (induction splits arbitrary: max')
  case Nil
  then show ?case by simp
next
  case (Cons split rest)
  from Cons.prems have h: "0 \<le> VBucketId split" "VBucketId split < MAX_VBUCKET"
    "max' < VBucketId split" "(word_of_int (VBucketId split) :: 16 word) \<noteq> vbid v"
    and r: "validateSplits MAX_VBUCKET v (VBucketId split) rest = None"
    by (auto split: if_splits)
  from Cons.IH [OF r] h show ?case by force
qed

lemma word16_of_int_inj:
  assumes "0 \<le> x" "x < 65536" "0 \<le> y" "y < 65536"
    and "(word_of_int x :: 16 word) = word_of_int y"
  shows "x = y"
  using assms by (simp add: word_of_int_inj)

text \<open>With splits that passed the validation, no \<open>Apply\<close> waits for itself.\<close>

lemma transferSplits_returns:
  assumes "\<forall>s\<in>set splits. 0 \<le> VBucketId s \<and> VBucketId s < 65536 \<and>
             (word_of_int (VBucketId s) :: 16 word) \<notin> set held"
    and "sorted_wrt (\<lambda>s t. VBucketId s < VBucketId t) splits"
  shows "transferSplits v splits held b \<noteq> None"
  using assms
proof (induction splits arbitrary: held b)
  case Nil
  then show ?case by simp
next
  case (Cons split rest)
  let ?id = "word_of_int (VBucketId split) :: 16 word"
  have "(word_of_int (VBucketId s) :: 16 word) \<noteq> ?id" if "s \<in> set rest" for s
  proof
    assume e: "(word_of_int (VBucketId s) :: 16 word) = ?id"
    have "VBucketId split < VBucketId s" using Cons.prems(2) that by simp
    moreover have "VBucketId s = VBucketId split"
      using Cons.prems(1) that e by (intro word16_of_int_inj) auto
    ultimately show False by simp
  qed
  then have "\<forall>s\<in>set rest. 0 \<le> VBucketId s \<and> VBucketId s < 65536 \<and>
             (word_of_int (VBucketId s) :: 16 word) \<notin> set (?id # held)"
    using Cons.prems(1) by auto
  moreover have "sorted_wrt (\<lambda>s t. VBucketId s < VBucketId t) rest"
    using Cons.prems(2) by simp
  ultimately have ih: "transferSplits v rest (?id # held) b1 \<noteq> None" for b1
    by (rule Cons.IH)
  have nh: "?id \<notin> set held" using Cons.prems(1) by simp
  show ?case
  proof (cases "?id = vbid v")
    case True
    obtain r b2 where "transferSplits v rest (?id # held) b = Some (r, b2)"
      using ih [of b] by fastforce
    then show ?thesis
      using True nh by (auto simp: Let_def split: option.splits)
  next
    case False
    obtain r b2 where
      "transferSplits v rest (?id # held) (snd (CreateVBucket b ?id)) = Some (r, b2)"
      using ih [of "snd (CreateVBucket b ?id)"] by fastforce
    then show ?thesis
      using False nh by (auto simp: Let_def split: option.splits)
  qed
qed

text \<open>
  \<open>splitRange\<close> returns on every request: the validation leaves no partition id twice and
  none that is the source's, given that partition ids fit 16 bits.
\<close>

lemma splitRange_returns:
  assumes "MAX_VBUCKET \<le> 65536"
  shows "splitRange MAX_VBUCKET b v sr \<noteq> None"
proof (cases "validateSplits MAX_VBUCKET v (-1) (sort_key VBucketId (Splits sr))")
  case (Some err)
  then show ?thesis by (simp add: splitRange_def Let_def)
next
  case None
  let ?splits = "sort_key VBucketId (Splits sr)"
  from validateSplits_ok [OF None] assms
  have "\<forall>s\<in>set ?splits. 0 \<le> VBucketId s \<and> VBucketId s < 65536 \<and>
             (word_of_int (VBucketId s) :: 16 word) \<notin> set [vbid v]"
    and "sorted_wrt (\<lambda>s t. VBucketId s < VBucketId t) ?splits"
    by auto
  then have "transferSplits v ?splits [vbid v] b \<noteq> None"
    by (rule transferSplits_returns)
  then show ?thesis
    using None by (auto simp: splitRange_def splitRangeActual_def Let_def)
qed

lemma b_once_eval:
  "vbucket.cas b_once = 1" "vbid b_once = 5"
  by (simp_all add: b_once_def handler_defs SET_def Let_def)

lemma a_thrice_eval:
  "state a_thrice = VBDead" "vbucket.cas a_thrice = 3" "vbid a_thrice = 0"
  "config a_thrice = None"
  by (simp_all add: a_thrice_def set_a_thrice_def handler_defs SET_def Let_def)

lemma split_5_into_0_eval:
  "splitRange 1024 bucket_with_dead_0 b_once split_5_into_0 =
     Some (MCResponse_zero,
           b_once\<lparr>items := NewTreap KeyLess, changes := NewTreap CASLess, state := VBDead,
             config := Some \<lparr>VBConfig.MinKeyInclusive = [], VBConfig.MaxKeyExclusive = []\<rparr>\<rparr>,
           (bucket_with_dead_0(0 \<mapsto> rangeCopyTo b_once a_thrice [] []))
             (5 \<mapsto> b_once\<lparr>items := NewTreap KeyLess, changes := NewTreap CASLess,
                    state := VBDead,
                    config := Some \<lparr>VBConfig.MinKeyInclusive = [],
                                     VBConfig.MaxKeyExclusive = []\<rparr>\<rparr>))"
  by (simp add: splitRange_def split_5_into_0_def bucket_with_dead_0_def splitRangeActual_def
      CreateVBucket_def getVBucket_def b_once_eval a_thrice_eval MCResponse_zero_def
      Status_defs Let_def)

text \<open>
  Claim C3, as the specification states it: of any two mutations in the same partition the
  earlier has the strictly smaller CAS. Partition 0 has been assigned the CAS values 0, 1
  and 2 and is still dead. A split of partition 5, whose counter is 1, into partition 0
  succeeds and copies the counter, so the next set on partition 0 is assigned CAS 1, below
  the 2 of an earlier mutation of the same partition.
\<close>

theorem cas_assignment_counterexample:
  "bucket_with_dead_0 0 = Some a_thrice \<and>
   a_thrice = snd (execs (newVBucket 0) set_a_thrice) \<and>
   map mcas (mutations (fst (execs (newVBucket 0) set_a_thrice))) = [0, 1, 2] \<and>
   (case splitRange 1024 bucket_with_dead_0 b_once split_5_into_0 of
      None \<Rightarrow> False
    | Some (res, v', b') \<Rightarrow>
        Status res = SUCCESS \<and>
        (case b' 0 of
           None \<Rightarrow> False
         | Some d \<Rightarrow>
             vbucket.cas d = 1 \<and>
             set_succeeded (fst (vbSet d (request SET [0x63] (Some [0x31]) 0))) \<and>
             map_option mcas (fst (snd (vbSet d (request SET [0x63] (Some [0x31]) 0)))) =
               Some 1))"
proof -
  have d: "vbucket.cas (rangeCopyTo b_once a_thrice [] []) = 1"
    "config (rangeCopyTo b_once a_thrice [] []) =
       Some \<lparr>VBConfig.MinKeyInclusive = [], VBConfig.MaxKeyExclusive = []\<rparr>"
    "contents (items (rangeCopyTo b_once a_thrice [] [])) = []"
    "vbid (rangeCopyTo b_once a_thrice [] []) = 0"
    by (simp_all add: rangeCopyTo_def b_once_eval a_thrice_eval treeRangeCopy_dst NewTreap_def)
  have s: "set_succeeded (fst (vbSet (rangeCopyTo b_once a_thrice [] [])
             (request SET [0x63] (Some [0x31]) 0))) \<and>
           map_option mcas (fst (snd (vbSet (rangeCopyTo b_once a_thrice [] [])
             (request SET [0x63] (Some [0x31]) 0)))) = Some 1"
    by (simp add: vbSet_def checkRange_def d Get_def request_def Let_def set_succeeded_def
        IsQuiet_def SET_def MCResponse_zero_def Status_defs)
  have c1: "bucket_with_dead_0 0 = Some a_thrice"
    by (simp add: bucket_with_dead_0_def)
  have c2: "a_thrice = snd (execs (newVBucket 0) set_a_thrice)"
    by (simp add: a_thrice_def)
  have c4: "(case splitRange 1024 bucket_with_dead_0 b_once split_5_into_0 of
      None \<Rightarrow> False
    | Some (res, v', b') \<Rightarrow>
        Status res = SUCCESS \<and>
        (case b' 0 of
           None \<Rightarrow> False
         | Some d \<Rightarrow>
             vbucket.cas d = 1 \<and>
             set_succeeded (fst (vbSet d (request SET [0x63] (Some [0x31]) 0))) \<and>
             map_option mcas (fst (snd (vbSet d (request SET [0x63] (Some [0x31]) 0)))) =
               Some 1))"
    using s d(1) by (simp add: split_5_into_0_eval MCResponse_zero_def)
  show ?thesis
    by (intro conjI c1 c2 set_a_thrice_mcas c4)
qed

lemma three_keys_eval:
  "map item.key (contents (items three_keys)) = [[0x61], [0x6d], [0x7a]]"
  "map item.cas (contents (changes three_keys)) = [0, 1, 2]"
  "vbucket.cas three_keys = 3"
  "vbid three_keys = 0"
  "state three_keys = VBActive"
  by (simp_all add: three_keys_def handler_defs SET_def Let_def)

lemma split_at_n_eval:
  "splitRange 1024 bucket_of_three_keys three_keys split_at_n =
     Some (MCResponse_zero,
           three_keys\<lparr>items := NewTreap KeyLess, changes := NewTreap CASLess, state := VBDead,
             config := Some \<lparr>VBConfig.MinKeyInclusive = [], VBConfig.MaxKeyExclusive = []\<rparr>\<rparr>,
           Map.empty
             (2 \<mapsto> rangeCopyTo three_keys (newVBucket 2) [0x6e] [],
              1 \<mapsto> rangeCopyTo three_keys (newVBucket 1) [] [0x6e],
              0 \<mapsto> three_keys\<lparr>items := NewTreap KeyLess, changes := NewTreap CASLess,
                    state := VBDead,
                    config := Some \<lparr>VBConfig.MinKeyInclusive = [],
                                     VBConfig.MaxKeyExclusive = []\<rparr>\<rparr>))"
proof -
  have n: "state (newVBucket 1) = VBDead" "state (newVBucket 2) = VBDead"
    by (simp_all add: newVBucket_def)
  show ?thesis
    by (simp add: splitRange_def split_at_n_def bucket_of_three_keys_def splitRangeActual_def
        CreateVBucket_def getVBucket_def three_keys_eval n MCResponse_zero_def Status_defs
        Let_def)
qed

text \<open>
  Claim C6, at the split scenario of the specification. The split succeeds; the source is
  left empty, dead and with an empty config, and both destinations have the cas counter
  of the source, 3. But both destinations are empty: partition 1 does not hold \<open>a\<close> and
  \<open>m\<close>, partition 2 does not hold \<open>z\<close>, and neither holds a change record.
\<close>

theorem split_destinations_empty:
  "keys_of (items three_keys) = [[0x61], [0x6d], [0x7a]] \<and>
   vbucket.cas three_keys = 3 \<and>
   map_option
     (\<lambda>(res, v', b').
        (Status res, keys_of (items v'), keys_of (changes v'), state v', config v',
         map_option (\<lambda>d. (keys_of (items d), keys_of (changes d), vbucket.cas d)) (b' 1),
         map_option (\<lambda>d. (keys_of (items d), keys_of (changes d), vbucket.cas d)) (b' 2)))
     (splitRange 1024 bucket_of_three_keys three_keys split_at_n) =
   Some (SUCCESS, [], [], VBDead,
         Some \<lparr>VBConfig.MinKeyInclusive = [], VBConfig.MaxKeyExclusive = []\<rparr>,
         Some ([], [], 3), Some ([], [], 3))"
  by (simp add: split_at_n_eval three_keys_eval rangeCopyTo_def treeRangeCopy_dst keys_of_def
      NewTreap_def MCResponse_zero_def)

text \<open>
  Claim C7, at the same scenario. The key \<open>a\<close> is stored in the source, the range given
  to partition 1 covers it, the split succeeds, and \<open>a\<close> is in neither destination.
\<close>

theorem split_drops_covered_item:
  "stored three_keys [0x61] \<noteq> None \<and>
   (case splitRange 1024 bucket_of_three_keys three_keys split_at_n of
      None \<Rightarrow> False
    | Some (res, v', b') \<Rightarrow>
        Status res = SUCCESS \<and>
        (case b' 1 of
           None \<Rightarrow> False
         | Some d \<Rightarrow> \<not> outsideRange (config d) [0x61] \<and> stored d [0x61] = None) \<and>
        (case b' 2 of
           None \<Rightarrow> False
         | Some d \<Rightarrow> outsideRange (config d) [0x61] \<and> stored d [0x61] = None))"
proof -
  have "stored three_keys [0x61] \<noteq> None"
    by (simp add: stored_def three_keys_def handler_defs SET_def Let_def)
  then show ?thesis
    by (simp add: split_at_n_eval rangeCopyTo_def treeRangeCopy_dst stored_def Get_def
        NewTreap_def outsideRange_def MCResponse_zero_def)
qed

section \<open>View refresh\<close>

text \<open>
  \<open>markStale\<close> registers the partition with the refresher only when it takes the staleness
  from 0 to 1.
\<close>

lemma markStale_registers: "snd (markStale v) \<longleftrightarrow> staleness v = 0"
  by (simp add: markStale_def Let_def)

text \<open>
  Whenever \<open>viewsRefresh_unlocked\<close> fails, \<open>viewsRefresh\<close> returns the error with 0
  leftovers and leaves the partition, its staleness counter included, as the failed
  refresh left it: nothing is subtracted. \<open>periodicViewsRefresh\<close> reads the 0 and returns
  false.
\<close>

lemma viewsRefresh_error:
  assumes "viewsRefresh_unlocked v = (Some err, v')"
  shows "viewsRefresh viewsRefresh_unlocked v = ((0, Some err), v') \<and>
         periodicViewsRefresh viewsRefresh_unlocked v = (False, v')"
  using assms by (simp add: periodicViewsRefresh_def viewsRefresh_def)

text \<open>
  Claim C8, at a partition with a staleness of 1 whose refresh fails. \<open>viewsRefresh\<close>
  returns the error and the staleness is still 1, as the claim says. But
  \<open>periodicViewsRefresh\<close> returns false, so the refresh is not scheduled again, where the
  claim says it asks for rescheduling; and the next \<open>markStale\<close> takes the staleness to 2
  without registering the partition, so no later tick retries the refresh.
\<close>

theorem refresh_error_not_rescheduled:
  "viewsRefresh failing_refresh \<lparr>staleness = 1\<rparr> =
     ((0, Some ''missing back index store, vbid: 0''), \<lparr>staleness = 1\<rparr>) \<and>
   periodicViewsRefresh failing_refresh \<lparr>staleness = 1\<rparr> = (False, \<lparr>staleness = 1\<rparr>) \<and>
   markStale \<lparr>staleness = 1\<rparr> = (\<lparr>staleness = 2\<rparr>, False)"
  by (simp add: periodicViewsRefresh_def viewsRefresh_def failing_refresh_def markStale_def
      Let_def)

end
